theory Spec2Isabelle
  imports Complex_Main "HOL-Library.Log_Nat"
begin

section \<open>Python floats\<close>

text \<open>
  The helper types of \<^verbatim>\<open>nanobrain/types.py\<close> compute with Python floats, that is with
  IEEE 754 binary64 numbers. A float is a finite value, an infinity or a NaN. A finite
  float is read as the real number it denotes; the sign of a zero is not kept, since no
  operation of the source can observe it (a division by either zero raises).

  Every arithmetic operation of the source computes the exact real result and rounds it.
  The rounding is a parameter of the model: \<open>binary64\<close> is the rounding of the machine
  (to nearest, ties to even, 53 significant bits, gradual underflow, overflow to an
  infinity), \<open>exact\<close> is arithmetic without rounding.
\<close>

datatype pyfloat = Fin real | PInf | NInf | NaN

type_synonym rounding = "real \<Rightarrow> pyfloat"

definition exact :: rounding where
  "exact x = Fin x"

definition pow2 :: "int \<Rightarrow> real" where
  "pow2 k = (if 0 \<le> k then 2 ^ nat k else 1 / 2 ^ nat (- k))"

text \<open>The binary exponent \<open>\<lfloor>log\<^sub>2 x\<rfloor>\<close> of a positive real, computed on integers.\<close>

definition ilog2 :: "real \<Rightarrow> int" where
  "ilog2 x = (if 1 \<le> x then bitlen \<lfloor>x\<rfloor> - 1 else - bitlen (\<lceil>1 / x\<rceil> - 1))"

definition round_half_even :: "real \<Rightarrow> int" where
  "round_half_even x =
     (let f = \<lfloor>x\<rfloor>; d = x - of_int f
      in if d < 1 / 2 then f else if 1 / 2 < d then f + 1 else if even f then f else f + 1)"

text \<open>
  The unit in the last place of \<open>x\<close> is \<open>2\<close> to the power \<open>e - 52\<close>, where \<open>e\<close> is the binary
  exponent of \<open>x\<close>, or \<open>-1022\<close> when that is larger (the numbers below are subnormal). The
  rounded value is the nearest multiple of that unit; a result of magnitude \<open>2 ^ 1024\<close>
  or more is an infinity.
\<close>

definition bexp :: "real \<Rightarrow> int" where
  "bexp x = max (ilog2 \<bar>x\<bar>) (- 1022)"

definition ulp :: "real \<Rightarrow> real" where
  "ulp x = pow2 (bexp x - 52)"

definition nearest :: "real \<Rightarrow> real" where
  "nearest x = (if x = 0 then 0 else of_int (round_half_even (x / ulp x)) * ulp x)"

definition binary64 :: rounding where
  "binary64 x =
     (let y = nearest x
      in if pow2 1024 \<le> y then PInf else if y \<le> - pow2 1024 then NInf else Fin y)"

text \<open>The reals that are floats: rounding leaves them as they are.\<close>

definition is_float :: "real \<Rightarrow> bool" where
  "is_float x \<longleftrightarrow> binary64 x = Fin x"

subsection \<open>Arithmetic\<close>

datatype py_error = ZeroDivisionError | OverflowError | ValueError | IndexError
  | InvalidTruthValueError | InvalidSignalError

text \<open>
  \<open>InvalidTruthValueError\<close> and \<open>InvalidSignalError\<close> are the error kinds the
  specification names; no class of that name exists in the source.
\<close>

fun fneg :: "pyfloat \<Rightarrow> pyfloat" where
  "fneg (Fin x) = Fin (- x)"
| "fneg PInf = NInf"
| "fneg NInf = PInf"
| "fneg NaN = NaN"

fun fabs :: "pyfloat \<Rightarrow> pyfloat" where
  "fabs (Fin x) = Fin \<bar>x\<bar>"
| "fabs PInf = PInf"
| "fabs NInf = PInf"
| "fabs NaN = NaN"

fun fadd :: "rounding \<Rightarrow> pyfloat \<Rightarrow> pyfloat \<Rightarrow> pyfloat" where
  "fadd rnd (Fin x) (Fin y) = rnd (x + y)"
| "fadd rnd NaN b = NaN"
| "fadd rnd a NaN = NaN"
| "fadd rnd PInf NInf = NaN"
| "fadd rnd NInf PInf = NaN"
| "fadd rnd PInf b = PInf"
| "fadd rnd NInf b = NInf"
| "fadd rnd a PInf = PInf"
| "fadd rnd a NInf = NInf"

definition fsub :: "rounding \<Rightarrow> pyfloat \<Rightarrow> pyfloat \<Rightarrow> pyfloat" where
  "fsub rnd a b = fadd rnd a (fneg b)"

text \<open>The infinity of a given sign.\<close>

definition signed_inf :: "bool \<Rightarrow> pyfloat" where
  "signed_inf positive = (if positive then PInf else NInf)"

fun fmul :: "rounding \<Rightarrow> pyfloat \<Rightarrow> pyfloat \<Rightarrow> pyfloat" where
  "fmul rnd (Fin x) (Fin y) = rnd (x * y)"
| "fmul rnd NaN b = NaN"
| "fmul rnd a NaN = NaN"
| "fmul rnd PInf (Fin y) = (if y = 0 then NaN else signed_inf (0 < y))"
| "fmul rnd NInf (Fin y) = (if y = 0 then NaN else signed_inf (y < 0))"
| "fmul rnd (Fin x) PInf = (if x = 0 then NaN else signed_inf (0 < x))"
| "fmul rnd (Fin x) NInf = (if x = 0 then NaN else signed_inf (x < 0))"
| "fmul rnd PInf PInf = PInf"
| "fmul rnd NInf NInf = PInf"
| "fmul rnd PInf NInf = NInf"
| "fmul rnd NInf PInf = NInf"

text \<open>
  Python's \<^verbatim>\<open>/\<close> on floats raises \<^verbatim>\<open>ZeroDivisionError\<close> when the divisor is zero,
  whatever the dividend.
\<close>

fun fdiv :: "rounding \<Rightarrow> pyfloat \<Rightarrow> pyfloat \<Rightarrow> py_error + pyfloat" where
  "fdiv rnd a (Fin y) =
     (if y = 0 then Inl ZeroDivisionError
      else case a of
        Fin x \<Rightarrow> Inr (rnd (x / y))
      | PInf \<Rightarrow> Inr (signed_inf (0 < y))
      | NInf \<Rightarrow> Inr (signed_inf (y < 0))
      | NaN \<Rightarrow> Inr NaN)"
| "fdiv rnd a NaN = Inr NaN"
| "fdiv rnd (Fin x) b = Inr (Fin 0)"
| "fdiv rnd a b = Inr NaN"

text \<open>The comparison \<^verbatim>\<open>x > 0\<close>; it is false for a NaN.\<close>

fun fpositive :: "pyfloat \<Rightarrow> bool" where
  "fpositive (Fin x) = (0 < x)"
| "fpositive PInf = True"
| "fpositive NInf = False"
| "fpositive NaN = False"

text \<open>The comparison \<^verbatim>\<open>x >= 0\<close>.\<close>

fun fnonneg :: "pyfloat \<Rightarrow> bool" where
  "fnonneg (Fin x) = (0 \<le> x)"
| "fnonneg PInf = True"
| "fnonneg NInf = False"
| "fnonneg NaN = False"

section \<open>TruthValue\<close>

text \<open>
  \<^verbatim>\<open>TruthValue\<close> is a dataclass with three float fields and the defaults
  \<^verbatim>\<open>(1.0, 0.0, 0.0)\<close>. It has no \<^verbatim>\<open>__post_init__\<close>: the generated constructor
  stores what it is given.
\<close>

record TruthValue =
  strength :: pyfloat
  confidence :: pyfloat
  count :: pyfloat

definition TruthValue_init :: "pyfloat \<Rightarrow> pyfloat \<Rightarrow> pyfloat \<Rightarrow> py_error + TruthValue" where
  "TruthValue_init s c n = Inr \<lparr>strength = s, confidence = c, count = n\<rparr>"

definition TruthValue_default :: TruthValue where
  "TruthValue_default = \<lparr>strength = Fin 1, confidence = Fin 0, count = Fin 0\<rparr>"

text \<open>
  \<^verbatim>\<open>merge\<close>: Python reads \<^verbatim>\<open>c1 + c2 - c1 * c2\<close> as \<^verbatim>\<open>(c1 + c2) - (c1 * c2)\<close> and
  \<^verbatim>\<open>s1 * c1 + s2 * c2 - s1 * c1 * c2 * s2\<close> as
  \<^verbatim>\<open>((s1 * c1) + (s2 * c2)) - (((s1 * c1) * c2) * s2)\<close>.
\<close>

definition merge_count :: "rounding \<Rightarrow> pyfloat \<Rightarrow> pyfloat \<Rightarrow> pyfloat" where
  "merge_count rnd c1 c2 = fsub rnd (fadd rnd c1 c2) (fmul rnd c1 c2)"

definition merge_numerator :: "rounding \<Rightarrow> pyfloat \<Rightarrow> pyfloat \<Rightarrow> pyfloat \<Rightarrow> pyfloat \<Rightarrow> pyfloat" where
  "merge_numerator rnd s1 c1 s2 c2 =
     fsub rnd (fadd rnd (fmul rnd s1 c1) (fmul rnd s2 c2))
              (fmul rnd (fmul rnd (fmul rnd s1 c1) c2) s2)"

definition merge :: "rounding \<Rightarrow> TruthValue \<Rightarrow> TruthValue \<Rightarrow> py_error + TruthValue" where
  "merge rnd self other =
     (let s1 = strength self; c1 = confidence self;
          s2 = strength other; c2 = confidence other;
          cnt = merge_count rnd c1 c2
      in if fpositive cnt then
           (case fdiv rnd (merge_numerator rnd s1 c1 s2 c2) cnt of
              Inl e \<Rightarrow> Inl e
            | Inr st \<Rightarrow> Inr \<lparr>strength = st, confidence = cnt,
                             count = fadd rnd (count self) (count other)\<rparr>)
         else Inr \<lparr>strength = Fin (1 / 2), confidence = cnt,
                    count = fadd rnd (count self) (count other)\<rparr>)"

text \<open>
  The blend the specification gives for the strength, without the cross term:
  \<open>(a.strength * a.confidence + b.strength * b.confidence) / c\<close>.
\<close>

definition classic_revision :: "rounding \<Rightarrow> TruthValue \<Rightarrow> TruthValue \<Rightarrow> py_error + pyfloat" where
  "classic_revision rnd a b =
     fdiv rnd (fadd rnd (fmul rnd (strength a) (confidence a)) (fmul rnd (strength b) (confidence b)))
              (merge_count rnd (confidence a) (confidence b))"

section \<open>Phase prime metric\<close>

text \<open>The constants of the module, as the floats the literals denote.\<close>

definition FUNDAMENTAL_PRIMES :: "int list" where
  "FUNDAMENTAL_PRIMES = [2, 3, 5, 7, 11, 13, 17, 19, 23, 29, 31, 37, 41, 43, 47]"

definition GOLDEN_RATIO :: pyfloat where
  "GOLDEN_RATIO = Fin (910872158600853 / 562949953421312)"

definition PI :: pyfloat where
  "PI = Fin (884279719003555 / 281474976710656)"

text \<open>
  An int becomes a float when it meets one in an operation or in \<^verbatim>\<open>math.sqrt\<close>; the
  conversion rounds, and raises \<^verbatim>\<open>OverflowError\<close> when the int is too large for a float.
\<close>

definition int_to_float :: "rounding \<Rightarrow> int \<Rightarrow> py_error + pyfloat" where
  "int_to_float rnd n = (case rnd (of_int n) of Fin x \<Rightarrow> Inr (Fin x) | _ \<Rightarrow> Inl OverflowError)"

fun math_sqrt :: "rounding \<Rightarrow> pyfloat \<Rightarrow> py_error + pyfloat" where
  "math_sqrt rnd (Fin x) = (if x < 0 then Inl ValueError else Inr (rnd (sqrt x)))"
| "math_sqrt rnd PInf = Inr PInf"
| "math_sqrt rnd NInf = Inl ValueError"
| "math_sqrt rnd NaN = Inr NaN"

text \<open>
  \<^verbatim>\<open>math.sin\<close> hands a finite argument to the sine of the C library and returns the
  float that comes back. That float is close to the sine, but the library does not
  promise the nearest float, and the last bit differs between libraries. The sine of
  the library is therefore a parameter \<open>libm_sin\<close> of the model, a function on the
  reals of which nothing is fixed here: a theorem states what it assumes of it.
  An infinite argument raises \<^verbatim>\<open>ValueError\<close>, a NaN gives a NaN.
\<close>

fun math_sin :: "(real \<Rightarrow> real) \<Rightarrow> pyfloat \<Rightarrow> py_error + pyfloat" where
  "math_sin libm_sin (Fin x) = Inr (Fin (libm_sin x))"
| "math_sin libm_sin PInf = Inl ValueError"
| "math_sin libm_sin NInf = Inl ValueError"
| "math_sin libm_sin NaN = Inr NaN"

text \<open>The loop of \<^verbatim>\<open>compute_ppm_coherence\<close> over Python's unbounded ints.\<close>

fun ppm_loop :: "int list \<Rightarrow> int \<times> int \<Rightarrow> int \<times> int" where
  "ppm_loop [] (product, total') = (product, total')"
| "ppm_loop (p # ps) (product, total') = ppm_loop ps (product * p, total' + p)"

definition compute_ppm_coherence ::
  "rounding \<Rightarrow> (real \<Rightarrow> real) \<Rightarrow> int list \<Rightarrow> py_error + pyfloat" where
  "compute_ppm_coherence rnd libm_sin primes =
     (if primes = [] then Inr (Fin (1 / 2))
      else case ppm_loop primes (1, 0) of (product, total') \<Rightarrow>
        if total' = 0 then Inr (Fin (1 / 2))
        else case int_to_float rnd product of Inl e \<Rightarrow> Inl e | Inr product_f \<Rightarrow>
          (case math_sqrt rnd product_f of Inl e \<Rightarrow> Inl e | Inr sqrt_product \<Rightarrow>
          (case int_to_float rnd total' of Inl e \<Rightarrow> Inl e | Inr total_f \<Rightarrow>
          (case fdiv rnd (fmul rnd sqrt_product PI) total_f of Inl e \<Rightarrow> Inl e | Inr q \<Rightarrow>
          (case math_sin libm_sin q of Inl e \<Rightarrow> Inl e | Inr s \<Rightarrow>
             Inr (fadd rnd (Fin (1 / 2)) (fmul rnd (Fin (1 / 2)) s)))))))"

text \<open>
  The value the specification gives for the coherence,
  \<open>0.5 + 0.5 * sin(sqrt(product) * pi / total)\<close>, with \<open>r\<close> rounding the two conversions
  and every arithmetic operation, \<open>sn\<close> the sine that is applied, and \<open>p\<close> the float
  \<^verbatim>\<open>math.pi\<close>.
\<close>

definition coherence_value ::
  "(real \<Rightarrow> real) \<Rightarrow> (real \<Rightarrow> real) \<Rightarrow> real \<Rightarrow> int \<Rightarrow> int \<Rightarrow> real" where
  "coherence_value r sn p product total' =
     r (1 / 2 + r (1 / 2 * sn (r (r (r (sqrt (r (of_int product))) * p) / r (of_int total')))))"

section \<open>Prime encoding\<close>

text \<open>
  \<^verbatim>\<open>int(x)\<close> truncates a float towards zero; it raises \<^verbatim>\<open>ValueError\<close> for a NaN and
  \<^verbatim>\<open>OverflowError\<close> for an infinity.
\<close>

definition trunc_zero :: "real \<Rightarrow> int" where
  "trunc_zero x = (if 0 \<le> x then \<lfloor>x\<rfloor> else \<lceil>x\<rceil>)"

fun py_int :: "pyfloat \<Rightarrow> py_error + int" where
  "py_int (Fin x) = Inr (trunc_zero x)"
| "py_int NaN = Inl ValueError"
| "py_int PInf = Inl OverflowError"
| "py_int NInf = Inl OverflowError"

text \<open>
  \<^verbatim>\<open>x % 1.0\<close>: the C remainder \<open>x - trunc x\<close> is exact; when it is negative Python adds
  the divisor to it. The remainder of an infinity is a NaN; nothing is raised.
\<close>

fun float_mod1 :: "rounding \<Rightarrow> pyfloat \<Rightarrow> pyfloat" where
  "float_mod1 rnd (Fin x) =
     (let m = x - of_int (trunc_zero x) in if m < 0 then rnd (m + 1) else Fin m)"
| "float_mod1 rnd PInf = NaN"
| "float_mod1 rnd NInf = NaN"
| "float_mod1 rnd NaN = NaN"

text \<open>List indexing: a negative index counts from the end, an index out of range raises.\<close>

definition py_getitem :: "'a list \<Rightarrow> int \<Rightarrow> py_error + 'a" where
  "py_getitem xs i =
     (if 0 \<le> i \<and> i < int (length xs) then Inr (xs ! nat i)
      else if i < 0 \<and> - int (length xs) \<le> i then Inr (xs ! nat (int (length xs) + i))
      else Inl IndexError)"

text \<open>
  One round of the loop of \<^verbatim>\<open>prime_encode\<close>, on the state \<open>(abs_val, primes)\<close>; the
  int \<^verbatim>\<open>len(FUNDAMENTAL_PRIMES)\<close> is converted exactly.
\<close>

definition encode_step :: "rounding \<Rightarrow> nat \<Rightarrow> pyfloat \<times> int list \<Rightarrow> py_error + pyfloat \<times> int list" where
  "encode_step rnd i st =
     (case st of (abs_val, primes) \<Rightarrow>
        if i < length FUNDAMENTAL_PRIMES then
          (case py_int (fmul rnd abs_val (Fin (real (length FUNDAMENTAL_PRIMES)))) of
             Inl e \<Rightarrow> Inl e
           | Inr n \<Rightarrow>
              (case py_getitem FUNDAMENTAL_PRIMES (n mod int (length FUNDAMENTAL_PRIMES)) of
                 Inl e \<Rightarrow> Inl e
               | Inr p \<Rightarrow> Inr (float_mod1 rnd (fmul rnd abs_val GOLDEN_RATIO), primes @ [p])))
        else Inr (abs_val, primes))"

fun encode_loop :: "rounding \<Rightarrow> nat list \<Rightarrow> pyfloat \<times> int list \<Rightarrow> py_error + pyfloat \<times> int list" where
  "encode_loop rnd [] st = Inr st"
| "encode_loop rnd (i # is) st =
     (case encode_step rnd i st of Inl e \<Rightarrow> Inl e | Inr st' \<Rightarrow> encode_loop rnd is st')"

definition prime_encode :: "rounding \<Rightarrow> pyfloat \<Rightarrow> int \<Rightarrow> py_error + int list" where
  "prime_encode rnd v num_primes =
     (case encode_loop rnd [0..<nat num_primes] (fabs v, []) of
        Inl e \<Rightarrow> Inl e
      | Inr (abs_val, primes) \<Rightarrow> Inr (sorted_list_of_set (set primes)))"

text \<open>
  The selection the specification describes, on a real state \<open>v\<close>: \<open>n\<close> steps, each
  selecting \<open>table[floor(v * 15) mod 15]\<close> and advancing to \<open>(v * \<phi>) mod 1\<close>; \<open>r\<close> rounds the
  two products.
\<close>

fun selected :: "(real \<Rightarrow> real) \<Rightarrow> real \<Rightarrow> nat \<Rightarrow> real \<Rightarrow> int list" where
  "selected r phi 0 v = []"
| "selected r phi (Suc n) v =
     FUNDAMENTAL_PRIMES ! nat (\<lfloor>r (v * 15)\<rfloor> mod 15) # selected r phi n (frac (r (v * phi)))"

definition encoding :: "(real \<Rightarrow> real) \<Rightarrow> real \<Rightarrow> real \<Rightarrow> int \<Rightarrow> int list" where
  "encoding r phi v k = sorted_list_of_set (set (selected r phi (min (nat k) 15) \<bar>v\<bar>))"

text \<open>
  A state \<open>v\<close> on which one round raises nothing: the two products are finite floats,
  \<open>r\<close> of the real products, and not negative.
\<close>

definition steps_ok :: "rounding \<Rightarrow> (real \<Rightarrow> real) \<Rightarrow> real \<Rightarrow> real \<Rightarrow> bool" where
  "steps_ok rnd r phi v \<longleftrightarrow>
     rnd (v * 15) = Fin (r (v * 15)) \<and> 0 \<le> r (v * 15) \<and>
     rnd (v * phi) = Fin (r (v * phi)) \<and> 0 \<le> r (v * phi)"

section \<open>Rounding to binary64\<close>

subsection \<open>Powers of two and the binary exponent\<close>

lemma pow2_powr: "pow2 k = 2 powr (real_of_int k)"
proof (cases "0 \<le> k")
  case True
  then have "2 powr (real_of_int k) = 2 powr (real (nat k))" by simp
  also have "\<dots> = 2 ^ nat k" by (simp only: powr_realpow zero_less_numeral)
  finally show ?thesis using True by (simp add: pow2_def)
next
  case False
  then have "2 powr (real_of_int k) = 2 powr (- real (nat (- k)))" by simp
  also have "\<dots> = 1 / 2 powr (real (nat (- k)))"
    by (simp only: powr_minus_divide)
  also have "\<dots> = 1 / 2 ^ nat (- k)" by (simp only: powr_realpow zero_less_numeral)
  finally show ?thesis using False by (simp add: pow2_def)
qed

lemma pow2_pos [simp]: "0 < pow2 k"
  by (simp add: pow2_powr)

lemma pow2_nonneg [simp]: "0 \<le> pow2 k"
  by (simp add: pow2_powr)

lemma pow2_neq0 [simp]: "pow2 k \<noteq> 0"
  by (simp add: pow2_powr)

lemma pow2_add: "pow2 (a + b) = pow2 a * pow2 b"
  by (simp add: pow2_powr powr_add)

lemma pow2_mono: "a \<le> b \<Longrightarrow> pow2 a \<le> pow2 b"
  by (simp add: pow2_powr)

lemma pow2_less_iff: "pow2 a < pow2 b \<longleftrightarrow> a < b"
  by (simp add: pow2_powr)

lemma pow2_nat: "0 \<le> k \<Longrightarrow> pow2 k = 2 ^ nat k"
  by (simp add: pow2_def)

lemma ilog2_bounds:
  assumes "0 < x"
  shows "pow2 (ilog2 x) \<le> x" and "x < pow2 (ilog2 x + 1)"
proof -
  have "pow2 (ilog2 x) \<le> x \<and> x < pow2 (ilog2 x + 1)"
  proof (cases "1 \<le> x")
    case True
    then have n: "0 < \<lfloor>x\<rfloor>" by simp
    from bitlen_bounds [OF n] have b: "2 ^ nat (bitlen \<lfloor>x\<rfloor> - 1) \<le> \<lfloor>x\<rfloor>" "\<lfloor>x\<rfloor> < 2 ^ nat (bitlen \<lfloor>x\<rfloor>)"
      by simp_all
    from n have b1: "1 \<le> bitlen \<lfloor>x\<rfloor>" by (simp add: bitlen_alt_def)
    have "real_of_int (2 ^ nat (bitlen \<lfloor>x\<rfloor> - 1)) \<le> real_of_int \<lfloor>x\<rfloor>"
      using b(1) by (simp only: of_int_le_iff)
    then have lo: "2 ^ nat (bitlen \<lfloor>x\<rfloor> - 1) \<le> x" by (simp add: le_floor_iff)
    have "\<lfloor>x\<rfloor> + 1 \<le> 2 ^ nat (bitlen \<lfloor>x\<rfloor>)" using b(2) by simp
    then have "real_of_int (\<lfloor>x\<rfloor> + 1) \<le> real_of_int (2 ^ nat (bitlen \<lfloor>x\<rfloor>))"
      by (simp only: of_int_le_iff)
    then have "real_of_int \<lfloor>x\<rfloor> + 1 \<le> 2 ^ nat (bitlen \<lfloor>x\<rfloor>)" by simp
    moreover have "x < real_of_int \<lfloor>x\<rfloor> + 1" by linarith
    ultimately have hi: "x < 2 ^ nat (bitlen \<lfloor>x\<rfloor>)" by linarith
    from True b1 lo hi show ?thesis by (simp add: ilog2_def pow2_nat)
  next
    case False
    let ?n = "\<lceil>1 / x\<rceil> - 1"
    from False assms have "1 < 1 / x" by simp
    then have n: "0 < ?n" by (simp add: less_ceiling_iff)
    from bitlen_bounds [OF n] have b: "2 ^ nat (bitlen ?n - 1) \<le> ?n" "?n < 2 ^ nat (bitlen ?n)"
      by simp_all
    from n have b1: "1 \<le> bitlen ?n" by (simp add: bitlen_alt_def)
    have "real_of_int ?n < 1 / x" by linarith
    moreover have "real_of_int (2 ^ nat (bitlen ?n - 1)) \<le> real_of_int ?n"
      using b(1) by (simp only: of_int_le_iff)
    then have "2 ^ nat (bitlen ?n - 1) \<le> real_of_int ?n" by simp
    ultimately have "2 ^ nat (bitlen ?n - 1) < 1 / x" by linarith
    then have hi: "x < 1 / 2 ^ nat (bitlen ?n - 1)" using assms
      by (simp add: field_simps)
    have "?n + 1 \<le> 2 ^ nat (bitlen ?n)" using b(2) by simp
    then have "real_of_int (?n + 1) \<le> real_of_int (2 ^ nat (bitlen ?n))"
      by (simp only: of_int_le_iff)
    then have "real_of_int ?n + 1 \<le> 2 ^ nat (bitlen ?n)" by simp
    moreover have "1 / x \<le> real_of_int ?n + 1" by linarith
    ultimately have "1 / x \<le> 2 ^ nat (bitlen ?n)" by linarith
    then have lo: "1 / 2 ^ nat (bitlen ?n) \<le> x" using assms
      by (simp add: field_simps)
    have e: "pow2 (- bitlen ?n) = 1 / 2 ^ nat (bitlen ?n)"
      using b1 by (simp add: pow2_def)
    have e1: "pow2 (- bitlen ?n + 1) = 1 / 2 ^ nat (bitlen ?n - 1)"
    proof (cases "bitlen ?n = 1")
      case True
      then show ?thesis by (simp add: pow2_def)
    next
      case False
      with b1 have "\<not> 0 \<le> - bitlen ?n + 1" by simp
      moreover have "- (- bitlen ?n + 1) = bitlen ?n - 1" by simp
      ultimately show ?thesis by (simp add: pow2_def)
    qed
    from False lo hi e e1 show ?thesis by (simp add: ilog2_def)
  qed
  then show "pow2 (ilog2 x) \<le> x" and "x < pow2 (ilog2 x + 1)" by simp_all
qed

lemma ilog2_eqI:
  assumes "pow2 e \<le> x" and "x < pow2 (e + 1)"
  shows "ilog2 x = e"
proof -
  have x: "0 < x" using assms(1) pow2_pos [of e] by linarith
  note b = ilog2_bounds [OF x]
  have "pow2 e < pow2 (ilog2 x + 1)" using assms(1) b(2) by linarith
  then have "e < ilog2 x + 1" by (simp only: pow2_less_iff)
  moreover have "pow2 (ilog2 x) < pow2 (e + 1)" using assms(2) b(1) by linarith
  then have "ilog2 x < e + 1" by (simp only: pow2_less_iff)
  ultimately show ?thesis by simp
qed

lemma ilog2_mono: "0 < x \<Longrightarrow> x \<le> y \<Longrightarrow> ilog2 x \<le> ilog2 y"
proof -
  assume x: "0 < x" and xy: "x \<le> y"
  then have y: "0 < y" by simp
  have "pow2 (ilog2 x) \<le> x" using ilog2_bounds(1) [OF x] .
  also have "x \<le> y" by fact
  also have "y < pow2 (ilog2 y + 1)" using ilog2_bounds(2) [OF y] .
  finally have "ilog2 x < ilog2 y + 1" by (simp only: pow2_less_iff)
  then show ?thesis by simp
qed

lemma rhe_cases:
  "round_half_even x = \<lfloor>x\<rfloor> \<or> round_half_even x = \<lfloor>x\<rfloor> + 1"
  by (simp add: round_half_even_def Let_def)

lemma rhe_upper: "real_of_int (round_half_even x) \<le> x + 1 / 2"
proof -
  have f: "real_of_int \<lfloor>x\<rfloor> \<le> x" by simp
  show ?thesis
  proof (cases "x - of_int \<lfloor>x\<rfloor> < 1 / 2")
    case True
    then have "round_half_even x = \<lfloor>x\<rfloor>" by (simp add: round_half_even_def Let_def)
    with f show ?thesis by linarith
  next
    case False
    have "real_of_int (round_half_even x) \<le> real_of_int \<lfloor>x\<rfloor> + 1"
      using rhe_cases [of x] by auto
    with False show ?thesis by linarith
  qed
qed

lemma rhe_lower: "x - 1 / 2 \<le> real_of_int (round_half_even x)"
proof -
  have f: "x < real_of_int \<lfloor>x\<rfloor> + 1" by linarith
  show ?thesis
  proof (cases "1 / 2 < x - of_int \<lfloor>x\<rfloor>")
    case True
    then have "real_of_int (round_half_even x) = real_of_int \<lfloor>x\<rfloor> + 1"
      by (simp add: round_half_even_def Let_def)
    with f show ?thesis by linarith
  next
    case False
    have "real_of_int \<lfloor>x\<rfloor> \<le> real_of_int (round_half_even x)"
      using rhe_cases [of x] by auto
    with False show ?thesis by linarith
  qed
qed

lemma rhe_of_int [simp]: "round_half_even (of_int n) = n"
  by (simp add: round_half_even_def)

lemma rhe_nearest:
  assumes "\<bar>x - of_int n\<bar> < 1 / 2"
  shows "round_half_even x = n"
proof -
  from rhe_upper [of x] rhe_lower [of x] assms
  have "\<bar>real_of_int (round_half_even x) - of_int n\<bar> < 1" by linarith
  then have "\<bar>real_of_int (round_half_even x - n)\<bar> < 1" by simp
  then have "\<bar>round_half_even x - n\<bar> < 1" by linarith
  then show ?thesis by simp
qed

lemma rhe_mono:
  assumes "x \<le> y"
  shows "round_half_even x \<le> round_half_even y"
proof (cases "\<lfloor>x\<rfloor> = \<lfloor>y\<rfloor>")
  case True
  with assms show ?thesis by (auto simp: round_half_even_def Let_def)
next
  case False
  with assms have "\<lfloor>x\<rfloor> < \<lfloor>y\<rfloor>" using floor_mono [of x y] by linarith
  moreover have "round_half_even x \<le> \<lfloor>x\<rfloor> + 1" using rhe_cases [of x] by auto
  moreover have "\<lfloor>y\<rfloor> \<le> round_half_even y" using rhe_cases [of y] by auto
  ultimately show ?thesis by linarith
qed

lemma rhe_neg: "round_half_even (- x) = - round_half_even x"
proof (cases "x = of_int \<lfloor>x\<rfloor>")
  case True
  then obtain n where "x = of_int n" ..
  then have "- x = of_int (- n)" by simp
  then show ?thesis using \<open>x = of_int n\<close> by (simp only: rhe_of_int)
next
  case False
  then have lt: "of_int \<lfloor>x\<rfloor> < x" using of_int_floor_le [of x] by linarith
  have fl: "\<lfloor>- x\<rfloor> = - \<lfloor>x\<rfloor> - 1"
  proof (rule floor_unique)
    show "of_int (- \<lfloor>x\<rfloor> - 1) \<le> - x" using floor_correct [of x] by simp linarith
    show "- x < of_int (- \<lfloor>x\<rfloor> - 1) + 1" using lt by simp
  qed
  have ev: "even (- \<lfloor>x\<rfloor> - 1) \<longleftrightarrow> odd \<lfloor>x\<rfloor>" by simp
  show ?thesis
    unfolding round_half_even_def Let_def fl ev
    by (auto simp: algebra_simps)
qed

lemma rhe_nonneg: "0 \<le> x \<Longrightarrow> 0 \<le> round_half_even x"
  using rhe_mono [of 0 x] rhe_of_int [of 0] by simp

lemma ulp_pos [simp]: "0 < ulp x"
  by (simp add: ulp_def)

lemma ulp_nonneg [simp]: "0 \<le> ulp x"
  by (simp add: ulp_def)

lemma ulp_neq0 [simp]: "ulp x \<noteq> 0"
  using ulp_pos [of x] by linarith

lemma ulp_neg [simp]: "ulp (- x) = ulp x"
  by (simp add: ulp_def bexp_def)

lemma nearest_neg: "nearest (- x) = - nearest x"
  by (simp add: nearest_def rhe_neg)

lemma nearest_zero [simp]: "nearest 0 = 0"
  by (simp add: nearest_def)

lemma ulp_bexp: "ulp x = pow2 (bexp x - 52)"
  by (simp add: ulp_def)

lemma pow2_split: "pow2 (e + 1) = pow2 53 * pow2 (e - 52)" "pow2 e = pow2 52 * pow2 (e - 52)"
proof -
  have "pow2 53 * pow2 (e - 52) = pow2 (53 + (e - 52))" by (simp only: pow2_add)
  then show "pow2 (e + 1) = pow2 53 * pow2 (e - 52)" by (simp add: add.commute)
  have "pow2 52 * pow2 (e - 52) = pow2 (52 + (e - 52))" by (simp only: pow2_add)
  then show "pow2 e = pow2 52 * pow2 (e - 52)" by simp
qed

lemma pow2_of_int: "0 \<le> k \<Longrightarrow> pow2 k = of_int (2 ^ nat k)"
  by (simp add: pow2_def)

lemma scaled_upper:
  assumes "0 < x"
  shows "x / ulp x < pow2 53"
proof -
  have "x < pow2 (ilog2 x + 1)" using ilog2_bounds(2) [OF assms] .
  also have "\<dots> \<le> pow2 (bexp x + 1)"
    using assms by (intro pow2_mono) (simp add: bexp_def)
  also have "\<dots> = pow2 53 * ulp x" using pow2_split(1) [of "bexp x"] by (simp add: ulp_bexp)
  finally show ?thesis by (simp add: field_simps)
qed

lemma scaled_lower:
  assumes "0 < x" and "- 1022 \<le> ilog2 x"
  shows "pow2 52 \<le> x / ulp x"
proof -
  from assms have e: "bexp x = ilog2 x" by (simp add: bexp_def)
  have "pow2 52 * ulp x = pow2 (bexp x)" using pow2_split(2) [of "bexp x"] by (simp add: ulp_bexp)
  also have "\<dots> \<le> x" unfolding e using ilog2_bounds(1) [OF assms(1)] .
  finally show ?thesis by (simp add: field_simps)
qed

lemma nearest_pos_eq: "0 < x \<Longrightarrow> nearest x = of_int (round_half_even (x / ulp x)) * ulp x"
  by (simp add: nearest_def)

lemma nearest_upper:
  assumes "0 < x"
  shows "nearest x \<le> pow2 (bexp x + 1)"
proof -
  have "x / ulp x \<le> of_int (2 ^ 53)"
    using scaled_upper [OF assms] by (simp add: pow2_def)
  then have "round_half_even (x / ulp x) \<le> round_half_even (of_int (2 ^ 53))"
    by (rule rhe_mono)
  then have "round_half_even (x / ulp x) \<le> 2 ^ 53" by (simp only: rhe_of_int)
  then have "real_of_int (round_half_even (x / ulp x)) \<le> real_of_int (2 ^ 53)"
    by (simp only: of_int_le_iff)
  then have "real_of_int (round_half_even (x / ulp x)) \<le> pow2 53" by (simp add: pow2_def)
  then have "real_of_int (round_half_even (x / ulp x)) * ulp x \<le> pow2 53 * ulp x"
    by (intro mult_right_mono) simp_all
  then show ?thesis using assms pow2_split(1) [of "bexp x"] by (simp add: nearest_pos_eq ulp_bexp)
qed

lemma nearest_lower:
  assumes "0 < x" and "- 1022 \<le> ilog2 x"
  shows "pow2 (bexp x) \<le> nearest x"
proof -
  have "of_int (2 ^ 52) \<le> x / ulp x"
    using scaled_lower [OF assms] by (simp add: pow2_def)
  then have "round_half_even (of_int (2 ^ 52)) \<le> round_half_even (x / ulp x)"
    by (rule rhe_mono)
  then have "2 ^ 52 \<le> round_half_even (x / ulp x)" by (simp only: rhe_of_int)
  then have "real_of_int (2 ^ 52) \<le> real_of_int (round_half_even (x / ulp x))"
    by (simp only: of_int_le_iff)
  then have "pow2 52 \<le> real_of_int (round_half_even (x / ulp x))" by (simp add: pow2_def)
  then have "pow2 52 * ulp x \<le> real_of_int (round_half_even (x / ulp x)) * ulp x"
    by (intro mult_right_mono) simp_all
  then show ?thesis using assms pow2_split(2) [of "bexp x"] by (simp add: nearest_pos_eq ulp_bexp)
qed

lemma nearest_nonneg:
  assumes "0 \<le> x"
  shows "0 \<le> nearest x"
proof (cases "x = 0")
  case True
  then show ?thesis by simp
next
  case False
  with assms have x: "0 < x" by simp
  then have "0 \<le> x / ulp x" by simp
  then have "0 \<le> round_half_even (x / ulp x)" by (rule rhe_nonneg)
  then show ?thesis using x by (simp add: nearest_pos_eq)
qed

lemma nearest_mono_pos:
  assumes "0 < x" and "x \<le> y"
  shows "nearest x \<le> nearest y"
proof -
  from assms have y: "0 < y" by simp
  have le: "ilog2 x \<le> ilog2 y" using assms by (rule ilog2_mono)
  then have ble: "bexp x \<le> bexp y" using assms y by (simp add: bexp_def)
  show ?thesis
  proof (cases "bexp x = bexp y")
    case True
    then have u: "ulp x = ulp y" by (simp add: ulp_bexp)
    have "x / ulp y \<le> y / ulp y" using assms(2) by (simp add: divide_right_mono)
    then have "round_half_even (x / ulp y) \<le> round_half_even (y / ulp y)" by (rule rhe_mono)
    then have "real_of_int (round_half_even (x / ulp y)) * ulp y
        \<le> real_of_int (round_half_even (y / ulp y)) * ulp y"
      by (intro mult_right_mono) simp_all
    then show ?thesis using assms(1) y by (simp add: nearest_pos_eq u)
  next
    case False
    with ble have lt: "bexp x < bexp y" by simp
    then have n: "- 1022 \<le> ilog2 y" using y by (simp add: bexp_def max_def split: if_splits)
    have "nearest x \<le> pow2 (bexp x + 1)" using assms(1) by (rule nearest_upper)
    also have "\<dots> \<le> pow2 (bexp y)" using lt by (intro pow2_mono) simp
    also have "\<dots> \<le> nearest y" using y n by (rule nearest_lower)
    finally show ?thesis .
  qed
qed

lemma nearest_mono:
  assumes "x \<le> y"
  shows "nearest x \<le> nearest y"
proof -
  consider "0 < x" | "x \<le> 0" "0 \<le> y" | "y < 0" by linarith
  then show ?thesis
  proof cases
    case 1
    then show ?thesis using assms by (rule nearest_mono_pos)
  next
    case 2
    then have "0 \<le> nearest (- x)" "0 \<le> nearest y" by (simp_all add: nearest_nonneg)
    then show ?thesis by (simp add: nearest_neg)
  next
    case 3
    then have "0 < - y" "- y \<le> - x" using assms by simp_all
    then have "nearest (- y) \<le> nearest (- x)" by (rule nearest_mono_pos)
    then show ?thesis by (simp add: nearest_neg)
  qed
qed

lemma nearest_fix:
  assumes "x = of_int m * ulp x"
  shows "nearest x = x"
proof (cases "x = 0")
  case True
  then show ?thesis by simp
next
  case False
  have "x / ulp x = of_int m" using assms by (simp add: field_simps)
  then show ?thesis using False assms by (simp add: nearest_def)
qed

lemma ulp_eqI:
  assumes "pow2 e \<le> \<bar>x\<bar>" and "\<bar>x\<bar> < pow2 (e + 1)" and "- 1022 \<le> e"
  shows "ulp x = pow2 (e - 52)"
proof -
  have "ilog2 \<bar>x\<bar> = e" using assms(1,2) by (rule ilog2_eqI)
  with assms(3) show ?thesis by (simp add: ulp_def bexp_def)
qed

lemma ulp_subnormal:
  assumes "\<bar>x\<bar> < pow2 (- 1021)" and "x \<noteq> 0"
  shows "ulp x = pow2 (- 1074)"
proof -
  have x: "0 < \<bar>x\<bar>" using assms(2) by simp
  have "pow2 (ilog2 \<bar>x\<bar>) < pow2 (- 1021)"
    using ilog2_bounds(1) [OF x] assms(1) by linarith
  then have "ilog2 \<bar>x\<bar> < - 1021" by (simp only: pow2_less_iff)
  then show ?thesis by (simp add: ulp_def bexp_def max_def)
qed

lemma nearest_eval:
  assumes "pow2 e \<le> \<bar>x\<bar>" and "\<bar>x\<bar> < pow2 (e + 1)" and "- 1022 \<le> e"
    and "\<bar>x / pow2 (e - 52) - of_int m\<bar> < 1 / 2"
  shows "nearest x = of_int m * pow2 (e - 52)"
proof -
  have u: "ulp x = pow2 (e - 52)" using assms(1-3) by (rule ulp_eqI)
  have "0 < \<bar>x\<bar>" using assms(1) pow2_pos [of e] by linarith
  then have "x \<noteq> 0" by simp
  moreover have "round_half_even (x / pow2 (e - 52)) = m" using assms(4) by (rule rhe_nearest)
  ultimately show ?thesis by (simp add: nearest_def u)
qed

lemma nearest_repr:
  assumes "pow2 e \<le> \<bar>x\<bar>" and "\<bar>x\<bar> < pow2 (e + 1)" and "- 1022 \<le> e"
    and "x = of_int m * pow2 (e - 52)"
  shows "nearest x = x"
proof -
  have u: "ulp x = pow2 (e - 52)" using assms(1-3) by (rule ulp_eqI)
  have "x = of_int m * ulp x" unfolding u using assms(4) .
  then show ?thesis by (rule nearest_fix)
qed

lemma nearest_idem_pos:
  assumes "0 < x"
  shows "nearest (nearest x) = nearest x"
proof -
  let ?m = "round_half_even (x / ulp x)"
  let ?y = "nearest x"
  let ?k = "bexp x"
  have y: "?y = of_int ?m * ulp x" using assms by (rule nearest_pos_eq)
  have k: "- 1022 \<le> ?k" by (simp add: bexp_def)
  have y0: "0 \<le> ?y" using assms by (simp add: nearest_nonneg)
  have up: "?y \<le> pow2 (?k + 1)" using assms by (rule nearest_upper)
  show ?thesis
  proof (cases "?y = 0")
    case True
    then show ?thesis by simp
  next
    case False
    with y0 have ypos: "0 < ?y" by simp
    show ?thesis
    proof (cases "?y = pow2 (?k + 1)")
      case True
      have "pow2 (?k + 1) \<le> \<bar>?y\<bar>" using True by simp
      moreover have "\<bar>?y\<bar> < pow2 (?k + 1 + 1)" using True by (simp add: pow2_less_iff)
      moreover have "- 1022 \<le> ?k + 1" using k by simp
      moreover have "?y = of_int (2 ^ 52) * pow2 (?k + 1 - 52)"
        using True pow2_split(2) [of "?k + 1"] by (simp add: pow2_def)
      ultimately show ?thesis by (rule nearest_repr)
    next
      case ne: False
      with up have lt: "?y < pow2 (?k + 1)" by simp
      have "ulp ?y = ulp x"
      proof (cases "- 1022 \<le> ilog2 x")
        case True
        then have "pow2 ?k \<le> ?y" using assms nearest_lower by blast
        then have "pow2 ?k \<le> \<bar>?y\<bar>" by simp
        moreover have "\<bar>?y\<bar> < pow2 (?k + 1)" using lt y0 by simp
        ultimately have "ulp ?y = pow2 (?k - 52)" using k by (rule ulp_eqI)
        then show ?thesis by (simp add: ulp_bexp)
      next
        case False
        then have kk: "?k = - 1022" using assms by (simp add: bexp_def)
        have "\<bar>?y\<bar> < pow2 (- 1021)" using lt y0 by (simp add: kk)
        then have "ulp ?y = pow2 (- 1074)" using \<open>?y \<noteq> 0\<close> by (rule ulp_subnormal)
        then show ?thesis by (simp add: ulp_bexp kk)
      qed
      then have "?y = of_int ?m * ulp ?y" using y by simp
      then show ?thesis by (rule nearest_fix)
    qed
  qed
qed

lemma nearest_idem [simp]: "nearest (nearest x) = nearest x"
proof -
  consider "0 < x" | "x = 0" | "0 < - x" by linarith
  then show ?thesis
  proof cases
    case 1
    then show ?thesis by (rule nearest_idem_pos)
  next
    case 2
    then show ?thesis by simp
  next
    case 3
    then have "nearest (nearest (- x)) = nearest (- x)" by (rule nearest_idem_pos)
    then show ?thesis by (simp add: nearest_neg)
  qed
qed

lemma nearest_le:
  assumes "x \<le> b" and "nearest b = b"
  shows "nearest x \<le> b"
  using nearest_mono [OF assms(1)] assms(2) by simp

lemma nearest_ge:
  assumes "a \<le> x" and "nearest a = a"
  shows "a \<le> nearest x"
  using nearest_mono [OF assms(1)] assms(2) by simp

lemma nearest_abs_le:
  assumes "\<bar>x\<bar> \<le> b" and "nearest b = b"
  shows "\<bar>nearest x\<bar> \<le> b"
proof -
  have "nearest (- b) = - b" using assms(2) by (simp add: nearest_neg)
  moreover have "- b \<le> x" "x \<le> b" using assms(1) by simp_all
  ultimately have "- b \<le> nearest x" "nearest x \<le> b"
    using assms(2) by (auto intro: nearest_le nearest_ge)
  then show ?thesis by simp
qed

lemma binary64_Fin: "\<bar>nearest x\<bar> < pow2 1024 \<Longrightarrow> binary64 x = Fin (nearest x)"
  unfolding binary64_def Let_def by (auto simp: abs_less_iff)

lemma binary64_repr:
  assumes "nearest x = x" and "\<bar>x\<bar> < pow2 1024"
  shows "binary64 x = Fin x"
  using binary64_Fin [of x] assms by simp

lemma binary64_bounded:
  assumes "\<bar>x\<bar> \<le> b" and "nearest b = b" and "b < pow2 1024"
  shows "binary64 x = Fin (nearest x)" and "\<bar>nearest x\<bar> \<le> b"
proof -
  show b: "\<bar>nearest x\<bar> \<le> b" using assms(1,2) by (rule nearest_abs_le)
  with assms(3) have "\<bar>nearest x\<bar> < pow2 1024" by linarith
  then show "binary64 x = Fin (nearest x)" by (rule binary64_Fin)
qed

lemma nearest_pow2:
  assumes "- 1022 \<le> k"
  shows "nearest (pow2 k) = pow2 k"
proof -
  have "pow2 k \<le> \<bar>pow2 k\<bar>" by simp
  moreover have "\<bar>pow2 k\<bar> < pow2 (k + 1)" by (simp add: pow2_less_iff)
  moreover note assms
  moreover have "pow2 k = of_int (2 ^ 52) * pow2 (k - 52)"
    using pow2_split(2) [of k] by (simp add: pow2_def)
  ultimately show ?thesis by (rule nearest_repr)
qed

lemma pow2_1024_split: "pow2 1024 = pow2 53 * pow2 971" "pow2 971 = 2 * pow2 970"
proof -
  have "pow2 53 * pow2 971 = pow2 (53 + 971)" by (simp only: pow2_add)
  then show "pow2 1024 = pow2 53 * pow2 971" by simp
  have "pow2 1 * pow2 970 = pow2 (1 + 970)" by (simp only: pow2_add)
  then show "pow2 971 = 2 * pow2 970" by (simp add: pow2_def)
qed

lemma nearest_below_overflow_pos:
  assumes "0 \<le> x" and "x < pow2 1024 - pow2 970"
  shows "nearest x < pow2 1024"
proof (cases "x < pow2 1023")
  case True
  have "nearest (pow2 1023) = pow2 1023" by (rule nearest_pow2) simp
  with True have "nearest x \<le> pow2 1023" by (intro nearest_le) simp_all
  also have "\<dots> < pow2 1024" by (simp add: pow2_less_iff)
  finally show ?thesis .
next
  case False
  then have lo: "pow2 1023 \<le> \<bar>x\<bar>" by simp
  have "x < pow2 1024" using assms pow2_pos [of 970] by linarith
  then have hi: "\<bar>x\<bar> < pow2 (1023 + 1)" using assms(1) by simp
  have u: "ulp x = pow2 (1023 - 52)" using lo hi by (rule ulp_eqI) simp
  then have u': "ulp x = pow2 971" by simp
  have xpos: "0 < x" using lo pow2_pos [of 1023] assms(1) by linarith
  have "x < (pow2 53 - 1 / 2) * pow2 971"
    using assms(2) pow2_1024_split by (simp add: algebra_simps)
  then have "x / ulp x < pow2 53 - 1 / 2" by (simp add: u' field_simps)
  with rhe_upper [of "x / ulp x"]
  have "real_of_int (round_half_even (x / ulp x)) < pow2 53" by linarith
  then have "real_of_int (round_half_even (x / ulp x)) * pow2 971 < pow2 53 * pow2 971"
    by (intro mult_strict_right_mono) simp_all
  then show ?thesis using xpos by (simp add: nearest_pos_eq u' pow2_1024_split(1))
qed

lemma binary64_finite:
  assumes "\<bar>x\<bar> < pow2 1024 - pow2 970"
  shows "binary64 x = Fin (nearest x)"
proof -
  have "nearest \<bar>x\<bar> < pow2 1024" using assms by (intro nearest_below_overflow_pos) simp_all
  moreover have "0 \<le> nearest \<bar>x\<bar>" by (simp add: nearest_nonneg)
  moreover have "\<bar>nearest x\<bar> = nearest \<bar>x\<bar>"
  proof (cases "0 \<le> x")
    case True
    then have "0 \<le> nearest x" by (rule nearest_nonneg)
    with True show ?thesis by simp
  next
    case False
    then have "0 \<le> nearest (- x)" by (intro nearest_nonneg) simp
    then have "nearest x \<le> 0" by (simp add: nearest_neg)
    with False show ?thesis by (simp add: nearest_neg)
  qed
  ultimately have "\<bar>nearest x\<bar> < pow2 1024" by simp
  then show ?thesis by (rule binary64_Fin)
qed

lemma nearest_threshold: "nearest (pow2 1024 - pow2 970) = pow2 1024"
proof -
  let ?t = "pow2 1024 - pow2 970"
  have t: "?t = (pow2 53 - 1 / 2) * pow2 971"
    using pow2_1024_split by (simp add: algebra_simps)
  have "pow2 1023 + pow2 1023 = pow2 1024"
  proof -
    have "pow2 1 * pow2 1023 = pow2 (1 + 1023)" by (simp only: pow2_add)
    then show ?thesis by (simp add: pow2_def)
  qed
  moreover have "pow2 970 < pow2 1023" by (simp add: pow2_less_iff)
  ultimately have lo': "pow2 1023 \<le> ?t" by linarith
  then have lo: "pow2 1023 \<le> \<bar>?t\<bar>" by linarith
  have "0 < ?t" using lo' pow2_pos [of 1023] by linarith
  moreover have "?t < pow2 1024" using pow2_pos [of 970] by linarith
  ultimately have hi: "\<bar>?t\<bar> < pow2 (1023 + 1)" by simp
  have u: "ulp ?t = pow2 (1023 - 52)" using lo hi by (rule ulp_eqI) simp
  then have u': "ulp ?t = pow2 971" by simp
  have "?t / ulp ?t = pow2 53 - 1 / 2" unfolding u' by (subst t) simp
  also have "\<dots> = 18014398509481983 / 2" by (simp add: pow2_def)
  finally have sc: "?t / ulp ?t = 18014398509481983 / 2" .
  have "round_half_even (18014398509481983 / 2) = 9007199254740992"
    by (simp add: round_half_even_def Let_def)
  then have "round_half_even (?t / ulp ?t) = 2 ^ 53" by (simp add: sc)
  moreover have "?t \<noteq> 0" using lo pow2_pos [of 1023] by linarith
  ultimately have "nearest ?t = of_int (2 ^ 53) * pow2 971" by (simp add: nearest_def u')
  then show ?thesis by (simp add: pow2_1024_split(1) pow2_def [of 53])
qed

lemma binary64_overflow:
  assumes "pow2 1024 - pow2 970 \<le> x"
  shows "binary64 x = PInf"
proof -
  have "nearest (pow2 1024 - pow2 970) \<le> nearest x" using assms by (rule nearest_mono)
  then show ?thesis by (simp add: nearest_threshold binary64_def)
qed

lemma binary64_overflow_neg:
  assumes "x \<le> - (pow2 1024 - pow2 970)"
  shows "binary64 x = NInf"
proof -
  have "pow2 1024 - pow2 970 \<le> - x" using assms by simp
  then have "nearest (pow2 1024 - pow2 970) \<le> nearest (- x)" by (rule nearest_mono)
  then have "nearest x \<le> - pow2 1024" by (simp add: nearest_threshold nearest_neg)
  moreover from this have "\<not> pow2 1024 \<le> nearest x" using pow2_pos [of 1024] by linarith
  ultimately show ?thesis by (simp add: binary64_def Let_def)
qed

lemma nearest_consts:
  "nearest 1 = 1" "nearest 2 = 2" "nearest (1 / 2) = 1 / 2" "nearest 15 = 15"
proof -
  show "nearest 1 = 1" using nearest_pow2 [of 0] by (simp add: pow2_def)
  show "nearest 2 = 2" using nearest_pow2 [of 1] by (simp add: pow2_def)
  show "nearest (1 / 2) = 1 / 2" using nearest_pow2 [of "- 1"] by (simp add: pow2_def)
  show "nearest 15 = 15"
    by (rule nearest_repr [of 3 _ "15 * 2 ^ 49"]) (simp_all add: pow2_def)
qed

subsection \<open>Evaluating a rounding\<close>

text \<open>
  A rounding at a given number is settled by naming the binary exponent \<open>e\<close> of the
  number and the integer \<open>m\<close> nearest to it in units of \<open>2\<close> to the power \<open>e - 52\<close>.
\<close>

lemma binary64_zero [simp]: "binary64 0 = Fin 0"
  using binary64_Fin [of 0] by simp

lemma binary64_eval:
  assumes "pow2 e \<le> \<bar>x\<bar>" and "\<bar>x\<bar> < pow2 (e + 1)" and "- 1022 \<le> e" and "e \<le> 1022"
    and "\<bar>x / pow2 (e - 52) - of_int m\<bar> < 1 / 2" and "r = of_int m * pow2 (e - 52)"
  shows "binary64 x = Fin r"
proof -
  have n: "nearest x = r" using nearest_eval [OF assms(1,2,3,5)] assms(6) by simp
  have "nearest (pow2 (e + 1)) = pow2 (e + 1)" using assms(3) by (intro nearest_pow2) simp
  moreover have "\<bar>x\<bar> \<le> pow2 (e + 1)" using assms(2) by simp
  ultimately have "\<bar>nearest x\<bar> \<le> pow2 (e + 1)" by (intro nearest_abs_le)
  also have "pow2 (e + 1) < pow2 1024" using assms(4) by (simp add: pow2_less_iff)
  finally show ?thesis using binary64_Fin [of x] n by simp
qed

lemma nearest_at:
  assumes "pow2 e \<le> \<bar>x\<bar>" and "\<bar>x\<bar> < pow2 (e + 1)" and "- 1022 \<le> e"
  shows "nearest x = of_int (round_half_even (x / pow2 (e - 52))) * pow2 (e - 52)"
proof -
  have u: "ulp x = pow2 (e - 52)" using assms by (rule ulp_eqI)
  have "0 < \<bar>x\<bar>" using assms(1) pow2_pos [of e] by linarith
  then have "x \<noteq> 0" by simp
  then show ?thesis by (simp add: nearest_def u)
qed

lemma is_float_pow2_1023: "is_float (2 ^ 1023)"
proof -
  have "nearest (pow2 1023) = pow2 1023" by (rule nearest_pow2) simp
  moreover have "\<bar>pow2 1023\<bar> < pow2 1024" by (simp add: pow2_less_iff)
  ultimately have "binary64 (pow2 1023) = Fin (pow2 1023)" by (rule binary64_repr)
  then show ?thesis by (simp add: is_float_def pow2_def)
qed

lemma is_float_neg: "is_float x \<Longrightarrow> is_float (- x)"
proof -
  assume "is_float x"
  then have b: "binary64 x = Fin x" by (simp add: is_float_def)
  then have "nearest x = x \<and> \<bar>x\<bar> < pow2 1024"
    by (auto simp: binary64_def Let_def split: if_splits)
  then have "nearest (- x) = - x" "\<bar>- x\<bar> < pow2 1024" by (simp_all add: nearest_neg)
  then have "binary64 (- x) = Fin (- x)" by (rule binary64_repr)
  then show ?thesis by (simp add: is_float_def)
qed

subsection \<open>Roundings near one\<close>

lemma pow2_52_53: "pow2 (- 52) = 2 * pow2 (- 53)"
  by (simp add: pow2_def)

lemma nearest_grid53:
  assumes "0 < x" and "x < 1" and "x = of_int k * pow2 (- 53)"
  shows "nearest x = x"
proof -
  let ?e = "ilog2 x"
  note b = ilog2_bounds [OF assms(1)]
  have "pow2 ?e < pow2 0" using b(1) assms(2) by (simp add: pow2_def [of 0])
  then have e1: "?e \<le> - 1" by (simp add: pow2_less_iff)
  have "0 < real_of_int k" using assms(1,3) pow2_pos [of "- 53"] by (simp add: zero_less_mult_iff)
  then have "1 \<le> real_of_int k" by simp
  then have "1 * pow2 (- 53) \<le> real_of_int k * pow2 (- 53)"
    by (intro mult_right_mono) simp_all
  then have "pow2 (- 53) \<le> x" using assms(3) by simp
  then have "pow2 (- 53) < pow2 (?e + 1)" using b(2) by linarith
  then have e2: "- 53 \<le> ?e" by (simp add: pow2_less_iff)
  have u: "ulp x = pow2 (?e - 52)"
    using b e2 assms(1) by (intro ulp_eqI) simp_all
  have "pow2 (- 53) = pow2 ((- 1 - ?e) + (?e - 52))" by simp
  also have "\<dots> = pow2 (- 1 - ?e) * pow2 (?e - 52)" by (rule pow2_add)
  also have "pow2 (- 1 - ?e) = of_int (2 ^ nat (- 1 - ?e))" using e1 by (intro pow2_of_int) simp
  finally have pw: "pow2 (- 53) = of_int (2 ^ nat (- 1 - ?e)) * ulp x" by (simp only: u)
  have "x = of_int k * pow2 (- 53)" by fact
  also have "\<dots> = of_int k * (of_int (2 ^ nat (- 1 - ?e)) * ulp x)" using pw by simp
  also have "\<dots> = of_int (k * 2 ^ nat (- 1 - ?e)) * ulp x" by simp
  finally show ?thesis by (rule nearest_fix)
qed

lemma nearest_binade_one:
  assumes "1 \<le> x" and "x \<le> 2"
  shows "\<exists>m. nearest x = of_int m * pow2 (- 52)" and "nearest x \<le> x + pow2 (- 53)"
proof -
  have "(\<exists>m. nearest x = of_int m * pow2 (- 52)) \<and> nearest x \<le> x + pow2 (- 53)"
  proof (cases "x = 2")
    case True
    have "nearest x = of_int (2 ^ 53) * pow2 (- 52)"
      unfolding True by (simp add: nearest_consts pow2_def)
    moreover have "nearest x \<le> x + pow2 (- 53)"
      unfolding True using pow2_pos [of "- 53"] by (simp add: nearest_consts)
    ultimately show ?thesis by blast
  next
    case False
    with assms have lt: "x < 2" by simp
    have "pow2 0 \<le> \<bar>x\<bar>" "\<bar>x\<bar> < pow2 (0 + 1)" using assms(1) lt by (simp_all add: pow2_def)
    then have "ulp x = pow2 (0 - 52)" by (rule ulp_eqI) simp
    then have u: "ulp x = pow2 (- 52)" by simp
    have x: "0 < x" using assms(1) by simp
    have n: "nearest x = of_int (round_half_even (x / pow2 (- 52))) * pow2 (- 52)"
      using nearest_pos_eq [OF x] by (simp add: u)
    have "real_of_int (round_half_even (x / pow2 (- 52))) \<le> x / pow2 (- 52) + 1 / 2"
      by (rule rhe_upper)
    then have "real_of_int (round_half_even (x / pow2 (- 52))) * pow2 (- 52)
        \<le> (x / pow2 (- 52) + 1 / 2) * pow2 (- 52)"
      by (intro mult_right_mono) simp_all
    also have "\<dots> = x + pow2 (- 53)" by (simp add: algebra_simps pow2_52_53)
    finally show ?thesis using n by auto
  qed
  then show "\<exists>m. nearest x = of_int m * pow2 (- 52)" and "nearest x \<le> x + pow2 (- 53)"
    by simp_all
qed

lemma nearest_one_tie: "nearest (1 + pow2 (- 53)) = 1"
proof -
  let ?x = "1 + pow2 (- 53)"
  have "pow2 0 \<le> \<bar>?x\<bar>" "\<bar>?x\<bar> < pow2 (0 + 1)" by (simp_all add: pow2_def)
  then have "ulp ?x = pow2 (0 - 52)" by (rule ulp_eqI) simp
  then have u: "ulp ?x = pow2 (- 52)" by simp
  have sc: "?x / ulp ?x = 9007199254740993 / 2" unfolding u by (simp add: pow2_def)
  have r: "round_half_even (?x / ulp ?x) = 4503599627370496"
    unfolding sc by (simp add: round_half_even_def Let_def)
  have ne: "?x \<noteq> 0" using pow2_pos [of "- 53"] by linarith
  have "nearest ?x = of_int (round_half_even (?x / ulp ?x)) * ulp ?x"
    by (simp only: nearest_def ne if_False)
  also have "\<dots> = of_int 4503599627370496 * ulp ?x" by (simp only: r)
  also have "\<dots> = of_int 4503599627370496 * pow2 (- 52)" by (simp only: u)
  also have "\<dots> = 1" by (simp add: pow2_def)
  finally show ?thesis .
qed

lemma rounded_confidence_le_one:
  assumes "0 \<le> c1" "c1 \<le> 1" "0 \<le> c2" "c2 \<le> 1"
  shows "nearest (nearest (c1 + c2) - nearest (c1 * c2)) \<le> 1"
proof -
  let ?A = "nearest (c1 + c2)" and ?B = "nearest (c1 * c2)"
  have B0: "0 \<le> ?B" using assms by (intro nearest_nonneg) simp
  have "?A - ?B \<le> 1 + pow2 (- 53)"
  proof (cases "c1 + c2 \<le> 1")
    case True
    then have "?A \<le> 1" by (intro nearest_le) (simp_all add: nearest_consts)
    then show ?thesis using B0 pow2_pos [of "- 53"] by linarith
  next
    case False
    then have s: "1 \<le> c1 + c2" "c1 + c2 \<le> 2" using assms by simp_all
    from nearest_binade_one [OF s] obtain m where
      m: "?A = of_int m * pow2 (- 52)" and up: "?A \<le> c1 + c2 + pow2 (- 53)" by blast
    have A2: "?A \<le> 2" using s(2) by (intro nearest_le) (simp_all add: nearest_consts)
    let ?g = "?A - 1 - pow2 (- 53)"
    have g: "?g = of_int (2 * m - 2 ^ 53 - 1) * pow2 (- 53)"
      by (simp add: m pow2_52_53 algebra_simps) (simp add: pow2_def)
    have "0 \<le> (1 - c1) * (1 - c2)" using assms by (intro mult_nonneg_nonneg) simp_all
    then have "c1 + c2 - 1 \<le> c1 * c2" by (simp add: algebra_simps)
    then have gp: "?g \<le> c1 * c2" using up by linarith
    have "?g \<le> ?B"
    proof (cases "0 < ?g")
      case True
      have "?g < 1" using A2 pow2_pos [of "- 53"] by linarith
      with True have "nearest ?g = ?g" using g by (rule nearest_grid53)
      with gp show ?thesis by (intro nearest_ge)
    next
      case False
      with B0 show ?thesis by linarith
    qed
    then show ?thesis by linarith
  qed
  then have "nearest (?A - ?B) \<le> nearest (1 + pow2 (- 53))" by (rule nearest_mono)
  then show ?thesis by (simp only: nearest_one_tie)
qed

lemma binary64_nonneg: "0 \<le> x \<Longrightarrow> fnonneg (binary64 x)"
proof -
  assume "0 \<le> x"
  then have "0 \<le> nearest x" by (rule nearest_nonneg)
  then show ?thesis
    using pow2_pos [of 1024] by (auto simp: binary64_def Let_def)
qed

lemma binary64_le2:
  assumes "\<bar>x\<bar> \<le> 2"
  shows "binary64 x = Fin (nearest x)"
proof -
  have "pow2 1 < pow2 1024" by (simp add: pow2_less_iff)
  then have "2 < pow2 1024" by (simp add: pow2_def [of 1])
  with assms show ?thesis by (intro binary64_bounded(1) [of x 2]) (simp_all add: nearest_consts)
qed

lemma nearest_unit:
  assumes "0 \<le> x" and "x \<le> 1"
  shows "0 \<le> nearest x" and "nearest x \<le> 1"
  using assms by (auto intro: nearest_nonneg nearest_le simp: nearest_consts)

lemma nearest_scaled_le:
  assumes "0 \<le> p" and "nearest p = p" and "0 \<le> c" and "c \<le> 1"
  shows "0 \<le> nearest (p * c)" and "nearest (p * c) \<le> p"
proof -
  show "0 \<le> nearest (p * c)" using assms(1,3) by (intro nearest_nonneg) simp
  have "p * c \<le> p * 1" using assms(1,4) by (intro mult_left_mono) simp_all
  then show "nearest (p * c) \<le> p" using assms(2) by (intro nearest_le) simp_all
qed

section \<open>Properties of merge\<close>

lemma binary64_pow2_bound:
  assumes "\<bar>x\<bar> \<le> pow2 k" and "- 1022 \<le> k" and "k \<le> 1023"
  shows "binary64 x = Fin (nearest x)" and "\<bar>nearest x\<bar> \<le> pow2 k"
proof -
  have a: "nearest (pow2 k) = pow2 k" using assms(2) by (rule nearest_pow2)
  have b: "pow2 k < pow2 1024" using assms(3) by (simp add: pow2_less_iff)
  show "binary64 x = Fin (nearest x)" and "\<bar>nearest x\<bar> \<le> pow2 k"
    using binary64_bounded [OF assms(1) a b] by simp_all
qed

lemma nearest_error: "\<bar>nearest x - x\<bar> \<le> ulp x / 2"
proof (cases "x = 0")
  case True
  then show ?thesis by simp
next
  case False
  let ?u = "ulp x"
  let ?m = "real_of_int (round_half_even (x / ?u))"
  have n: "nearest x = ?m * ?u" using False by (simp add: nearest_def)
  have "\<bar>?m - x / ?u\<bar> \<le> 1 / 2"
    using rhe_upper [of "x / ?u"] rhe_lower [of "x / ?u"] by linarith
  then have "\<bar>?m - x / ?u\<bar> * ?u \<le> 1 / 2 * ?u" by (intro mult_right_mono) simp_all
  moreover have "\<bar>?m - x / ?u\<bar> * ?u = \<bar>(?m - x / ?u) * ?u\<bar>" by (simp add: abs_mult)
  moreover have "(?m - x / ?u) * ?u = ?m * ?u - x" by (simp add: algebra_simps)
  ultimately show ?thesis using n by simp
qed

lemma pow2_sum_bound:
  assumes "\<bar>x\<bar> \<le> pow2 k" and "\<bar>y\<bar> \<le> pow2 k"
  shows "\<bar>x + y\<bar> \<le> pow2 (k + 1)" and "\<bar>x - y\<bar> \<le> pow2 (k + 1)"
proof -
  have "pow2 (k + 1) = 2 * pow2 k" using pow2_add [of k 1] by (simp add: pow2_def [of 1])
  then show "\<bar>x + y\<bar> \<le> pow2 (k + 1)" and "\<bar>x - y\<bar> \<le> pow2 (k + 1)"
    using assms by linarith+
qed

lemma pow2_prod_bound:
  assumes "\<bar>x\<bar> \<le> pow2 j" and "\<bar>y\<bar> \<le> pow2 k"
  shows "\<bar>x * y\<bar> \<le> pow2 (j + k)"
proof -
  have "\<bar>x\<bar> * \<bar>y\<bar> \<le> pow2 j * pow2 k" using assms by (intro mult_mono) simp_all
  then show ?thesis by (simp add: abs_mult pow2_add)
qed

lemma pow2_bound_mono: "\<bar>x\<bar> \<le> pow2 j \<Longrightarrow> j \<le> k \<Longrightarrow> \<bar>x\<bar> \<le> pow2 k"
  using pow2_mono [of j k] by linarith

lemma binary64_idem:
  assumes "binary64 x = Fin y"
  shows "binary64 y = Fin y"
proof -
  have y: "y = nearest x" and b: "\<bar>y\<bar> < pow2 1024"
    using assms unfolding binary64_def Let_def by (auto split: if_splits)
  have "nearest y = y" unfolding y by simp
  then show ?thesis using b by (rule binary64_repr)
qed

lemma threshold_large: "pow2 1023 \<le> pow2 1024 - pow2 970"
proof -
  have "pow2 1 * pow2 1023 = pow2 (1 + 1023)" by (simp only: pow2_add)
  then have "pow2 1024 = 2 * pow2 1023" by (simp add: pow2_def)
  moreover have "pow2 970 \<le> pow2 1023" by (rule pow2_mono) simp
  ultimately show ?thesis by linarith
qed

lemma threshold_gt: "k \<le> 1023 \<Longrightarrow> pow2 k \<le> pow2 1024 - pow2 970"
  using threshold_large pow2_mono [of k 1023] by linarith

lemma fdiv_positive: "fpositive d \<Longrightarrow> \<exists>q. fdiv rnd a d = Inr q"
  by (cases d; cases a) auto

lemma fadd_commute: "fadd rnd a b = fadd rnd b a"
  by (cases a; cases b) (simp_all add: add.commute)

lemma fmul_commute: "fmul rnd a b = fmul rnd b a"
  by (cases a; cases b) (simp_all add: mult.commute)

lemma merge_count_commute: "merge_count rnd c1 c2 = merge_count rnd c2 c1"
  by (simp add: merge_count_def fadd_commute [of rnd c1 c2] fmul_commute [of rnd c1 c2])

lemma fmul_exact_assoc: "fmul exact (fmul exact a b) c = fmul exact a (fmul exact b c)"
  by (cases a; cases b; cases c)
    (auto simp: exact_def signed_inf_def zero_less_mult_iff mult_less_0_iff)

lemma merge_total: "\<exists>r. merge rnd a b = Inr r"
proof (cases "fpositive (merge_count rnd (confidence a) (confidence b))")
  case True
  from fdiv_positive [OF this] obtain q where
    "fdiv rnd (merge_numerator rnd (strength a) (confidence a) (strength b) (confidence b))
       (merge_count rnd (confidence a) (confidence b)) = Inr q" by blast
  with True show ?thesis by (simp add: merge_def Let_def)
next
  case False
  then show ?thesis by (simp add: merge_def Let_def)
qed

lemma merge_fields:
  assumes "merge rnd a b = Inr r"
  shows "confidence r = merge_count rnd (confidence a) (confidence b)"
    and "count r = fadd rnd (count a) (count b)"
    and "fpositive (confidence r) \<Longrightarrow>
      fdiv rnd (merge_numerator rnd (strength a) (confidence a) (strength b) (confidence b))
        (confidence r) = Inr (strength r)"
    and "\<not> fpositive (confidence r) \<Longrightarrow> strength r = Fin (1 / 2)"
  using assms by (auto simp: merge_def Let_def split: if_splits sum.splits)

lemma merge_numerator_exact_commute:
  "merge_numerator exact s1 c1 s2 c2 = merge_numerator exact s2 c2 s1 c1"
proof -
  have "fmul exact (fmul exact (fmul exact s1 c1) c2) s2
      = fmul exact (fmul exact s1 c1) (fmul exact s2 c2)"
    by (simp add: fmul_exact_assoc fmul_commute [of exact c2 s2])
  also have "\<dots> = fmul exact (fmul exact s2 c2) (fmul exact s1 c1)"
    by (rule fmul_commute)
  also have "\<dots> = fmul exact (fmul exact (fmul exact s2 c2) c1) s1"
    by (simp add: fmul_exact_assoc fmul_commute [of exact c1 s1])
  finally show ?thesis
    by (simp add: merge_numerator_def fadd_commute [of exact "fmul exact s1 c1"])
qed

lemma revision_bounds:
  fixes s1 c1 s2 c2 :: real
  assumes "0 \<le> s1" "s1 \<le> 1" "0 \<le> c1" "c1 \<le> 1" "0 \<le> s2" "s2 \<le> 1" "0 \<le> c2" "c2 \<le> 1"
  shows "0 \<le> c1 + c2 - c1 * c2" and "c1 + c2 - c1 * c2 \<le> 1"
    and "0 \<le> s1 * c1 + s2 * c2 - s1 * c1 * c2 * s2"
    and "s1 * c1 + s2 * c2 - s1 * c1 * c2 * s2 \<le> c1 + c2 - c1 * c2"
proof -
  have "0 \<le> (1 - c1) * (1 - c2)" using assms by (intro mult_nonneg_nonneg) simp_all
  then show "c1 + c2 - c1 * c2 \<le> 1" by (simp add: algebra_simps)
  have "0 \<le> c1 * (1 - c2)" using assms by (intro mult_nonneg_nonneg) simp_all
  then show "0 \<le> c1 + c2 - c1 * c2" using assms by (simp add: algebra_simps)
  let ?x = "s1 * c1" and ?y = "s2 * c2"
  have x: "0 \<le> ?x" "?x \<le> c1" using assms by (simp_all add: mult_left_le_one_le)
  have y: "0 \<le> ?y" "?y \<le> c2" using assms by (simp_all add: mult_left_le_one_le)
  have x1: "?x \<le> 1" using x(2) assms by linarith
  have "0 \<le> 1 - ?x" using x1 by simp
  with y(1) have "0 \<le> ?y * (1 - ?x)" by (rule mult_nonneg_nonneg)
  then have "0 \<le> ?x + ?y - ?x * ?y" using x(1) by (simp add: algebra_simps)
  then show "0 \<le> s1 * c1 + s2 * c2 - s1 * c1 * c2 * s2" by (simp add: algebra_simps)
  have "(1 - c1) * (1 - c2) \<le> (1 - ?x) * (1 - ?y)"
    using x y assms by (intro mult_mono) simp_all
  then have "?x + ?y - ?x * ?y \<le> c1 + c2 - c1 * c2" by (simp add: algebra_simps)
  then show "s1 * c1 + s2 * c2 - s1 * c1 * c2 * s2 \<le> c1 + c2 - c1 * c2"
    by (simp add: algebra_simps)
qed

lemma merge_exact_bounds:
  assumes "0 \<le> s1" "s1 \<le> 1" "0 \<le> c1" "c1 \<le> 1" "0 \<le> n1"
    and "0 \<le> s2" "s2 \<le> 1" "0 \<le> c2" "c2 \<le> 1" "0 \<le> n2"
  shows "\<exists>s c n. merge exact \<lparr>strength = Fin s1, confidence = Fin c1, count = Fin n1\<rparr>
                            \<lparr>strength = Fin s2, confidence = Fin c2, count = Fin n2\<rparr>
           = Inr \<lparr>strength = Fin s, confidence = Fin c, count = Fin n\<rparr>
         \<and> 0 \<le> s \<and> s \<le> 1 \<and> 0 \<le> c \<and> c \<le> 1 \<and> 0 \<le> n"
proof -
  let ?c = "c1 + c2 - c1 * c2"
  let ?num = "s1 * c1 + s2 * c2 - s1 * c1 * c2 * s2"
  note b = revision_bounds [OF assms(1-4) assms(6-9)]
  show ?thesis
  proof (cases "0 < ?c")
    case True
    have "0 \<le> ?num / ?c" using b(3) True by simp
    moreover have "?num / ?c \<le> 1" using b(4) True by (simp add: divide_le_eq_1)
    moreover have "merge exact \<lparr>strength = Fin s1, confidence = Fin c1, count = Fin n1\<rparr>
                            \<lparr>strength = Fin s2, confidence = Fin c2, count = Fin n2\<rparr>
      = Inr \<lparr>strength = Fin (?num / ?c), confidence = Fin ?c, count = Fin (n1 + n2)\<rparr>"
      using True
      by (simp add: merge_def Let_def merge_count_def merge_numerator_def fsub_def exact_def)
    moreover have "0 \<le> n1 + n2" using assms(5,10) by simp
    ultimately show ?thesis using b(1,2) by blast
  next
    case False
    then have "merge exact \<lparr>strength = Fin s1, confidence = Fin c1, count = Fin n1\<rparr>
                            \<lparr>strength = Fin s2, confidence = Fin c2, count = Fin n2\<rparr>
      = Inr \<lparr>strength = Fin (1 / 2), confidence = Fin ?c, count = Fin (n1 + n2)\<rparr>"
      by (simp add: merge_def Let_def merge_count_def merge_numerator_def fsub_def exact_def)
    moreover have "(0::real) \<le> 1 / 2" "(1::real) / 2 \<le> 1" by simp_all
    moreover have "0 \<le> n1 + n2" using assms(5,10) by simp
    ultimately show ?thesis using b(1,2) assms(5,10) by blast
  qed
qed

lemma merge_binary64_bounds:
  assumes "0 \<le> s1" "s1 \<le> 1" "0 \<le> c1" "c1 \<le> 1" "0 \<le> n1"
    and "0 \<le> s2" "s2 \<le> 1" "0 \<le> c2" "c2 \<le> 1" "0 \<le> n2"
  shows "\<exists>st c n. merge binary64 \<lparr>strength = Fin s1, confidence = Fin c1, count = Fin n1\<rparr>
                               \<lparr>strength = Fin s2, confidence = Fin c2, count = Fin n2\<rparr>
           = Inr \<lparr>strength = st, confidence = Fin c, count = n\<rparr>
         \<and> fnonneg st \<and> 0 \<le> c \<and> c \<le> 1 \<and> fnonneg n"
proof -
  let ?A = "nearest (c1 + c2)" and ?B = "nearest (c1 * c2)"
  let ?C = "nearest (?A - ?B)"
  let ?P1 = "nearest (s1 * c1)" and ?P2 = "nearest (s2 * c2)"
  let ?S = "nearest (?P1 + ?P2)"
  let ?X1 = "nearest (?P1 * c2)"
  let ?X = "nearest (?X1 * s2)"
  let ?N = "nearest (?S - ?X)"
  \<comment> \<open>the confidence\<close>
  have A: "binary64 (c1 + c2) = Fin ?A" using assms by (intro binary64_le2) simp
  have A2: "0 \<le> ?A" "?A \<le> 2"
    using assms by (auto intro!: nearest_nonneg nearest_le simp: nearest_consts)
  have p1: "0 \<le> c1 * c2" "c1 * c2 \<le> 1" using assms by (simp_all add: mult_le_one)
  have B: "binary64 (c1 * c2) = Fin ?B" using p1 by (intro binary64_le2) simp
  have B2: "0 \<le> ?B" "?B \<le> 1" using p1 by (rule nearest_unit)+
  have "c1 * c2 \<le> c1 * 1" using assms by (intro mult_left_mono) simp_all
  then have "c1 * c2 \<le> c1 + c2" using assms by simp
  then have BA: "?B \<le> ?A" by (rule nearest_mono)
  have C: "binary64 (?A - ?B) = Fin ?C" using A2 B2 BA by (intro binary64_le2) simp
  have C0: "0 \<le> ?C" using BA by (intro nearest_nonneg) simp
  have C1: "?C \<le> 1" using assms(3,4,8,9) by (rule rounded_confidence_le_one)
  have cnt: "merge_count binary64 (Fin c1) (Fin c2) = Fin ?C"
    by (simp add: merge_count_def fsub_def A B C)
  \<comment> \<open>the numerator\<close>
  have q1: "0 \<le> s1 * c1" "s1 * c1 \<le> 1" using assms by (simp_all add: mult_le_one)
  have q2: "0 \<le> s2 * c2" "s2 * c2 \<le> 1" using assms by (simp_all add: mult_le_one)
  have P1: "binary64 (s1 * c1) = Fin ?P1" using q1 by (intro binary64_le2) simp
  have P2: "binary64 (s2 * c2) = Fin ?P2" using q2 by (intro binary64_le2) simp
  have P1b: "0 \<le> ?P1" "?P1 \<le> 1" using q1 by (rule nearest_unit)+
  have P2b: "0 \<le> ?P2" "?P2 \<le> 1" using q2 by (rule nearest_unit)+
  have S: "binary64 (?P1 + ?P2) = Fin ?S" using P1b P2b by (intro binary64_le2) simp
  have "?P1 \<le> ?P1 + ?P2" using P2b by simp
  then have SP: "?P1 \<le> ?S" by (intro nearest_ge) simp_all
  have S2: "?S \<le> 2" using P1b P2b by (intro nearest_le) (simp_all add: nearest_consts)
  have X1b: "0 \<le> ?X1" "?X1 \<le> ?P1"
    using P1b(1) assms(8,9) by (auto intro: nearest_scaled_le)
  have "?P1 * c2 \<le> 1 * 1" using P1b assms(8,9) by (intro mult_mono) simp_all
  moreover have "0 \<le> ?P1 * c2" using P1b(1) assms(8) by simp
  ultimately have X1: "binary64 (?P1 * c2) = Fin ?X1" by (intro binary64_le2) simp
  have Xb: "0 \<le> ?X" "?X \<le> ?X1"
    using X1b(1) assms(6,7) by (auto intro: nearest_scaled_le)
  have "?X1 \<le> 1" using X1b(2) P1b(2) by linarith
  then have "?X1 * s2 \<le> 1 * 1" using X1b(1) assms(6,7) by (intro mult_mono) simp_all
  moreover have "0 \<le> ?X1 * s2" using X1b(1) assms(6) by simp
  ultimately have X: "binary64 (?X1 * s2) = Fin ?X" by (intro binary64_le2) simp
  have XS: "?X \<le> ?S" using Xb X1b SP by linarith
  have N: "binary64 (?S - ?X) = Fin ?N" using XS Xb S2 by (intro binary64_le2) simp
  have N0: "0 \<le> ?N" using XS by (intro nearest_nonneg) simp
  have num: "merge_numerator binary64 (Fin s1) (Fin c1) (Fin s2) (Fin c2) = Fin ?N"
    by (simp add: merge_numerator_def fsub_def P1 P2 S X1 X N)
  have n: "fnonneg (binary64 (n1 + n2))" using assms(5,10) by (intro binary64_nonneg) simp
  show ?thesis
  proof (cases "0 < ?C")
    case True
    then have "0 \<le> ?N / ?C" using N0 by simp
    then have "fnonneg (binary64 (?N / ?C))" by (rule binary64_nonneg)
    moreover have "merge binary64 \<lparr>strength = Fin s1, confidence = Fin c1, count = Fin n1\<rparr>
                               \<lparr>strength = Fin s2, confidence = Fin c2, count = Fin n2\<rparr>
      = Inr \<lparr>strength = binary64 (?N / ?C), confidence = Fin ?C, count = binary64 (n1 + n2)\<rparr>"
      using True by (simp add: merge_def Let_def cnt num)
    ultimately show ?thesis using C0 C1 n by blast
  next
    case False
    then have "merge binary64 \<lparr>strength = Fin s1, confidence = Fin c1, count = Fin n1\<rparr>
                               \<lparr>strength = Fin s2, confidence = Fin c2, count = Fin n2\<rparr>
      = Inr \<lparr>strength = Fin (1 / 2), confidence = Fin ?C, count = binary64 (n1 + n2)\<rparr>"
      by (simp add: merge_def Let_def cnt num)
    moreover have "fnonneg (Fin (1 / 2))" by simp
    ultimately show ?thesis using C0 C1 n by blast
  qed
qed

lemma merge_count_binary64:
  assumes "\<bar>c1\<bar> \<le> pow2 200" and "\<bar>c2\<bar> \<le> pow2 200"
  shows "merge_count binary64 (Fin c1) (Fin c2)
           = Fin (nearest (nearest (c1 + c2) - nearest (c1 * c2)))"
proof -
  let ?A = "nearest (c1 + c2)" and ?B = "nearest (c1 * c2)"
  have a: "\<bar>c1 + c2\<bar> \<le> pow2 400"
    using pow2_sum_bound(1) [OF assms] by (rule pow2_bound_mono) simp
  have b: "\<bar>c1 * c2\<bar> \<le> pow2 400" using pow2_prod_bound [OF assms] by simp
  note A = binary64_pow2_bound [OF a]
  note B = binary64_pow2_bound [OF b]
  have A1: "binary64 (c1 + c2) = Fin ?A" and A2: "\<bar>?A\<bar> \<le> pow2 400" using A by simp_all
  have B1: "binary64 (c1 * c2) = Fin ?B" and B2: "\<bar>?B\<bar> \<le> pow2 400" using B by simp_all
  have "\<bar>?A - ?B\<bar> \<le> pow2 401" using pow2_sum_bound(2) [OF A2 B2] by simp
  then have C: "binary64 (?A - ?B) = Fin (nearest (?A - ?B))"
    by (rule binary64_pow2_bound) simp_all
  show ?thesis by (simp add: merge_count_def fsub_def A1 B1 C)
qed

lemma merge_numerator_binary64:
  assumes "\<bar>s1\<bar> \<le> pow2 200" and "\<bar>c1\<bar> \<le> pow2 200"
    and "\<bar>s2\<bar> \<le> pow2 200" and "\<bar>c2\<bar> \<le> pow2 200"
  shows "merge_numerator binary64 (Fin s1) (Fin c1) (Fin s2) (Fin c2)
           = Fin (nearest (nearest (nearest (s1 * c1) + nearest (s2 * c2))
                    - nearest (nearest (nearest (s1 * c1) * c2) * s2)))"
proof -
  let ?P1 = "nearest (s1 * c1)" and ?P2 = "nearest (s2 * c2)"
  let ?S = "nearest (?P1 + ?P2)"
  let ?X1 = "nearest (?P1 * c2)"
  let ?X = "nearest (?X1 * s2)"
  have p1: "\<bar>s1 * c1\<bar> \<le> pow2 400" using pow2_prod_bound [OF assms(1,2)] by simp
  have p2: "\<bar>s2 * c2\<bar> \<le> pow2 400" using pow2_prod_bound [OF assms(3,4)] by simp
  have P1: "binary64 (s1 * c1) = Fin ?P1" and P1b: "\<bar>?P1\<bar> \<le> pow2 400"
    using binary64_pow2_bound [OF p1] by simp_all
  have P2: "binary64 (s2 * c2) = Fin ?P2" and P2b: "\<bar>?P2\<bar> \<le> pow2 400"
    using binary64_pow2_bound [OF p2] by simp_all
  have s: "\<bar>?P1 + ?P2\<bar> \<le> pow2 401" using pow2_sum_bound(1) [OF P1b P2b] by simp
  have S: "binary64 (?P1 + ?P2) = Fin ?S" and Sb: "\<bar>?S\<bar> \<le> pow2 401"
    using binary64_pow2_bound [OF s] by simp_all
  have x1: "\<bar>?P1 * c2\<bar> \<le> pow2 600" using pow2_prod_bound [OF P1b assms(4)] by simp
  have X1: "binary64 (?P1 * c2) = Fin ?X1" and X1b: "\<bar>?X1\<bar> \<le> pow2 600"
    using binary64_pow2_bound [OF x1] by simp_all
  have x: "\<bar>?X1 * s2\<bar> \<le> pow2 800" using pow2_prod_bound [OF X1b assms(3)] by simp
  have X: "binary64 (?X1 * s2) = Fin ?X" and Xb: "\<bar>?X\<bar> \<le> pow2 800"
    using binary64_pow2_bound [OF x] by simp_all
  have Sb': "\<bar>?S\<bar> \<le> pow2 800" using Sb by (rule pow2_bound_mono) simp
  have "\<bar>?S - ?X\<bar> \<le> pow2 801" using pow2_sum_bound(2) [OF Sb' Xb] by simp
  then have N: "binary64 (?S - ?X) = Fin (nearest (?S - ?X))"
    by (rule binary64_pow2_bound) simp_all
  show ?thesis by (simp add: merge_numerator_def fsub_def P1 P2 S X1 X N)
qed


text \<open>
  C7, as the claim states it, fails in binary64 arithmetic. With
  \<open>a = TruthValue(1.0, 0.9999999999999999, 9007199254740992.0)\<close> and
  \<open>b = TruthValue(1.0, 0.9999999999999999, 1.0)\<close> (confidences \<open>1 - 2^-53\<close>, counts
  \<open>2^53\<close> and \<open>1\<close>) the result has the confidence \<open>1.0\<close>, while
  \<open>a.confidence + b.confidence - a.confidence * b.confidence\<close> is \<open>1 - 2^-106\<close>, and the
  count \<open>2^53\<close>, while \<open>a.count + b.count\<close> is \<open>2^53 + 1\<close>.
\<close>

theorem merge_confidence_count_counterexample:
  "merge binary64 \<lparr>strength = Fin 1, confidence = Fin (9007199254740991 / 9007199254740992), count = Fin 9007199254740992\<rparr>
                  \<lparr>strength = Fin 1, confidence = Fin (9007199254740991 / 9007199254740992), count = Fin 1\<rparr>
     = Inr \<lparr>strength = Fin 1, confidence = Fin 1, count = Fin 9007199254740992\<rparr>
   \<and> (9007199254740991 / 9007199254740992 + 9007199254740991 / 9007199254740992
        - 9007199254740991 / 9007199254740992 * (9007199254740991 / 9007199254740992) :: real) < 1
   \<and> (9007199254740992 :: real) < 9007199254740992 + 1
   \<and> is_float (9007199254740991 / 9007199254740992) \<and> is_float 9007199254740992 \<and> is_float 1"
proof -
  have r1: "binary64 (1) = Fin (1)"
    by (rule binary64_eval [of "0" _ "4503599627370496"]) (simp_all add: pow2_def)
  have r2: "binary64 (9007199254740991 / 9007199254740992) = Fin (9007199254740991 / 9007199254740992)"
    by (rule binary64_eval [of "-1" _ "9007199254740991"]) (simp_all add: pow2_def)
  have r3: "binary64 (9007199254740992) = Fin (9007199254740992)"
    by (rule binary64_eval [of "53" _ "4503599627370496"]) (simp_all add: pow2_def)
  have r4: "binary64 (9007199254740991 / 4503599627370496) = Fin (9007199254740991 / 4503599627370496)"
    by (rule binary64_eval [of "0" _ "9007199254740991"]) (simp_all add: pow2_def)
  have r5: "binary64 (81129638414606663681390495662081 / 81129638414606681695789005144064) = Fin (4503599627370495 / 4503599627370496)"
    by (rule binary64_eval [of "-1" _ "9007199254740990"]) (simp_all add: pow2_def)
  have r6: "binary64 (4503599627370495 / 4503599627370496) = Fin (4503599627370495 / 4503599627370496)"
    by (rule binary64_eval [of "-1" _ "9007199254740990"]) (simp_all add: pow2_def)
  have n7: "nearest 9007199254740993 = 9007199254740992"
    using nearest_at [of "53" "9007199254740993"] by (simp add: pow2_def round_half_even_def Let_def)
  have "\<bar>nearest 9007199254740993\<bar> < pow2 1024" unfolding n7 by (simp add: pow2_def)
  then have r7: "binary64 9007199254740993 = Fin 9007199254740992"
    using binary64_Fin [of 9007199254740993] n7 by simp
  show ?thesis
    by (simp add: merge_def Let_def merge_count_def merge_numerator_def fsub_def is_float_def
        r1 r2 r3 r4 r5 r6 r7)
qed

text \<open>
  C7, amended. For every pair of TruthValues with finite fields, \<open>merge\<close> returns a
  result. In exact arithmetic its confidence is the real number
  \<open>a.confidence + b.confidence - a.confidence * b.confidence\<close> and its count is the real
  number \<open>a.count + b.count\<close>. In binary64 arithmetic its count is the float nearest to
  \<open>a.count + b.count\<close>, at most half a unit in the last place away from it, when the sum
  is below \<open>2^1024 - 2^970\<close> in magnitude, and an infinity otherwise; and its confidence
  is the float nearest to \<open>A - B\<close>, with \<open>A\<close> the float nearest to
  \<open>a.confidence + b.confidence\<close> and \<open>B\<close> the float nearest to
  \<open>a.confidence * b.confidence\<close>, when the two confidences are at most \<open>2^200\<close> in
  magnitude.
\<close>

theorem merge_confidence_count_value:
  "(\<exists>r. merge exact \<lparr>strength = Fin s1, confidence = Fin c1, count = Fin n1\<rparr>
                    \<lparr>strength = Fin s2, confidence = Fin c2, count = Fin n2\<rparr> = Inr r
      \<and> confidence r = Fin (c1 + c2 - c1 * c2) \<and> count r = Fin (n1 + n2))
   \<and> (\<exists>r. merge binary64 \<lparr>strength = Fin s1, confidence = Fin c1, count = Fin n1\<rparr>
                    \<lparr>strength = Fin s2, confidence = Fin c2, count = Fin n2\<rparr> = Inr r
      \<and> (\<bar>n1 + n2\<bar> < pow2 1024 - pow2 970 \<longrightarrow>
           count r = Fin (nearest (n1 + n2)) \<and> \<bar>nearest (n1 + n2) - (n1 + n2)\<bar> \<le> ulp (n1 + n2) / 2)
      \<and> (pow2 1024 - pow2 970 \<le> n1 + n2 \<longrightarrow> count r = PInf)
      \<and> (n1 + n2 \<le> - (pow2 1024 - pow2 970) \<longrightarrow> count r = NInf)
      \<and> (\<bar>c1\<bar> \<le> pow2 200 \<and> \<bar>c2\<bar> \<le> pow2 200 \<longrightarrow>
           confidence r = Fin (nearest (nearest (c1 + c2) - nearest (c1 * c2)))))"
proof
  show "\<exists>r. merge exact \<lparr>strength = Fin s1, confidence = Fin c1, count = Fin n1\<rparr>
                    \<lparr>strength = Fin s2, confidence = Fin c2, count = Fin n2\<rparr> = Inr r
      \<and> confidence r = Fin (c1 + c2 - c1 * c2) \<and> count r = Fin (n1 + n2)"
    by (simp add: merge_def Let_def merge_count_def merge_numerator_def fsub_def exact_def)
next
  let ?a = "\<lparr>strength = Fin s1, confidence = Fin c1, count = Fin n1\<rparr>"
  let ?b = "\<lparr>strength = Fin s2, confidence = Fin c2, count = Fin n2\<rparr>"
  from merge_total obtain r where r: "merge binary64 ?a ?b = Inr r" by blast
  have n: "count r = binary64 (n1 + n2)" using merge_fields(2) [OF r] by simp
  have c: "confidence r = merge_count binary64 (Fin c1) (Fin c2)"
    using merge_fields(1) [OF r] by simp
  have 1: "count r = Fin (nearest (n1 + n2)) \<and> \<bar>nearest (n1 + n2) - (n1 + n2)\<bar> \<le> ulp (n1 + n2) / 2"
    if "\<bar>n1 + n2\<bar> < pow2 1024 - pow2 970"
    using n binary64_finite [OF that] nearest_error [of "n1 + n2"] by simp
  have 2: "count r = PInf" if "pow2 1024 - pow2 970 \<le> n1 + n2"
    using n binary64_overflow [OF that] by simp
  have 3: "count r = NInf" if "n1 + n2 \<le> - (pow2 1024 - pow2 970)"
    using n binary64_overflow_neg [OF that] by simp
  have 4: "confidence r = Fin (nearest (nearest (c1 + c2) - nearest (c1 * c2)))"
    if "\<bar>c1\<bar> \<le> pow2 200 \<and> \<bar>c2\<bar> \<le> pow2 200"
    using c merge_count_binary64 [of c1 c2] that by simp
  show "\<exists>r. merge binary64 ?a ?b = Inr r
      \<and> (\<bar>n1 + n2\<bar> < pow2 1024 - pow2 970 \<longrightarrow>
           count r = Fin (nearest (n1 + n2)) \<and> \<bar>nearest (n1 + n2) - (n1 + n2)\<bar> \<le> ulp (n1 + n2) / 2)
      \<and> (pow2 1024 - pow2 970 \<le> n1 + n2 \<longrightarrow> count r = PInf)
      \<and> (n1 + n2 \<le> - (pow2 1024 - pow2 970) \<longrightarrow> count r = NInf)
      \<and> (\<bar>c1\<bar> \<le> pow2 200 \<and> \<bar>c2\<bar> \<le> pow2 200 \<longrightarrow>
           confidence r = Fin (nearest (nearest (c1 + c2) - nearest (c1 * c2))))"
    using r 1 2 3 4 by blast
qed

text \<open>
  The hypotheses of C7 hold for \<open>a = TruthValue(0.5, 0.5, 3.0)\<close> and
  \<open>b = TruthValue(0.25, 0.25, 4.0)\<close>: the count of the result is \<open>7\<close> and its confidence
  \<open>0.5 + 0.25 - 0.125 = 0.625\<close>.
\<close>

theorem merge_confidence_count_value_witness:
  "\<exists>r. merge binary64 \<lparr>strength = Fin (1 / 2), confidence = Fin (1 / 2), count = Fin 3\<rparr>
                       \<lparr>strength = Fin (1 / 4), confidence = Fin (1 / 4), count = Fin 4\<rparr> = Inr r
     \<and> count r = Fin 7 \<and> confidence r = Fin (5 / 8)"
proof -
  have h1: "\<bar>3 + 4 :: real\<bar> < pow2 1024 - pow2 970"
    using threshold_gt [of 3] by (simp add: pow2_def [of 3])
  have h2: "\<bar>1 / 2 :: real\<bar> \<le> pow2 200 \<and> \<bar>1 / 4 :: real\<bar> \<le> pow2 200"
    by (simp add: pow2_def)
  have n1: "nearest 7 = 7"
    using nearest_at [of "2" "7"] by (simp add: pow2_def round_half_even_def Let_def)
  have n2: "nearest (3 / 4) = 3 / 4"
    using nearest_at [of "-1" "3 / 4"] by (simp add: pow2_def round_half_even_def Let_def)
  have n3: "nearest (1 / 8) = 1 / 8"
    using nearest_at [of "-3" "1 / 8"] by (simp add: pow2_def round_half_even_def Let_def)
  have n4: "nearest (5 / 8) = 5 / 8"
    using nearest_at [of "-1" "5 / 8"] by (simp add: pow2_def round_half_even_def Let_def)
  from merge_confidence_count_value [of "1 / 2" "1 / 2" 3 "1 / 4" "1 / 4" 4]
  obtain r where r: "merge binary64 \<lparr>strength = Fin (1 / 2), confidence = Fin (1 / 2), count = Fin 3\<rparr>
                       \<lparr>strength = Fin (1 / 4), confidence = Fin (1 / 4), count = Fin 4\<rparr> = Inr r"
    and n: "\<bar>3 + 4 :: real\<bar> < pow2 1024 - pow2 970 \<longrightarrow>
           count r = Fin (nearest (3 + 4)) \<and> \<bar>nearest (3 + 4) - (3 + 4 :: real)\<bar> \<le> ulp (3 + 4) / 2"
    and c: "\<bar>1 / 2 :: real\<bar> \<le> pow2 200 \<and> \<bar>1 / 4 :: real\<bar> \<le> pow2 200 \<longrightarrow>
           confidence r = Fin (nearest (nearest (1 / 2 + 1 / 4) - nearest (1 / 2 * (1 / 4))))"
    by blast
  have "count r = Fin 7" using n h1 by (simp add: n1)
  moreover have "confidence r = Fin (5 / 8)" using c h2 by (simp add: n2 n3 n4)
  ultimately show ?thesis using r by blast
qed

text \<open>
  C1, as the claim states it, fails: with \<open>a = b = TruthValue(1.0, 1.0)\<close> the combined
  confidence is \<open>1\<close>, merge returns the strength \<open>(1 + 1 - 1) / 1 = 1\<close>, and the blend
  of the claim is \<open>(1 + 1) / 1 = 2\<close>. Every operation here is exact in binary64.
\<close>

theorem merge_classic_revision_counterexample:
  "merge binary64 \<lparr>strength = Fin 1, confidence = Fin 1, count = Fin 0\<rparr>
                  \<lparr>strength = Fin 1, confidence = Fin 1, count = Fin 0\<rparr>
     = Inr \<lparr>strength = Fin 1, confidence = Fin 1, count = Fin 0\<rparr>
   \<and> classic_revision binary64 \<lparr>strength = Fin 1, confidence = Fin 1, count = Fin 0\<rparr>
                  \<lparr>strength = Fin 1, confidence = Fin 1, count = Fin 0\<rparr>
     = Inr (Fin 2)"
proof -
  have r1: "binary64 1 = Fin 1" by (rule binary64_repr) (simp_all add: nearest_consts pow2_def)
  have r2: "binary64 2 = Fin 2" by (rule binary64_repr) (simp_all add: nearest_consts pow2_def)
  show ?thesis
    by (simp add: merge_def Let_def merge_count_def merge_numerator_def fsub_def
        classic_revision_def r1 r2)
qed

text \<open>
  C1, amended. For every pair of TruthValues with finite fields, with
  \<open>s1, c1\<close> the strength and confidence of \<open>a\<close> and \<open>s2, c2\<close> those of \<open>b\<close>. In exact
  arithmetic, with \<open>c = c1 + c2 - c1 * c2\<close>: if \<open>c > 0\<close> the strength of the result is the
  real number \<open>(s1 * c1 + s2 * c2 - s1 * c1 * c2 * s2) / c\<close>, the blend with the cross
  term subtracted, and otherwise it is \<open>0.5\<close>. In binary64 arithmetic, when the four
  numbers are at most \<open>2^200\<close> in magnitude, every operation is rounded to the nearest
  float, in the order in which the source writes them: with \<open>C\<close> the rounded
  \<open>(c1 + c2) - (c1 * c2)\<close> and \<open>N\<close> the rounded
  \<open>((s1 * c1) + (s2 * c2)) - (((s1 * c1) * c2) * s2)\<close>, the strength is the rounded
  quotient \<open>N / C\<close> if \<open>C > 0\<close> and \<open>0.5\<close> otherwise.
\<close>

theorem merge_strength_value:
  "(\<exists>r. merge exact \<lparr>strength = Fin s1, confidence = Fin c1, count = Fin n1\<rparr>
                    \<lparr>strength = Fin s2, confidence = Fin c2, count = Fin n2\<rparr> = Inr r
      \<and> strength r = Fin (if 0 < c1 + c2 - c1 * c2
                          then (s1 * c1 + s2 * c2 - s1 * c1 * c2 * s2) / (c1 + c2 - c1 * c2)
                          else 1 / 2))
   \<and> (\<bar>s1\<bar> \<le> pow2 200 \<and> \<bar>c1\<bar> \<le> pow2 200 \<and> \<bar>s2\<bar> \<le> pow2 200 \<and> \<bar>c2\<bar> \<le> pow2 200 \<longrightarrow>
      (\<exists>r. merge binary64 \<lparr>strength = Fin s1, confidence = Fin c1, count = Fin n1\<rparr>
                    \<lparr>strength = Fin s2, confidence = Fin c2, count = Fin n2\<rparr> = Inr r
         \<and> strength r =
             (if 0 < nearest (nearest (c1 + c2) - nearest (c1 * c2))
              then binary64 (nearest (nearest (nearest (s1 * c1) + nearest (s2 * c2))
                                      - nearest (nearest (nearest (s1 * c1) * c2) * s2))
                             / nearest (nearest (c1 + c2) - nearest (c1 * c2)))
              else Fin (1 / 2))))"
proof (intro conjI impI)
  show "\<exists>r. merge exact \<lparr>strength = Fin s1, confidence = Fin c1, count = Fin n1\<rparr>
                    \<lparr>strength = Fin s2, confidence = Fin c2, count = Fin n2\<rparr> = Inr r
      \<and> strength r = Fin (if 0 < c1 + c2 - c1 * c2
                          then (s1 * c1 + s2 * c2 - s1 * c1 * c2 * s2) / (c1 + c2 - c1 * c2)
                          else 1 / 2)"
    by (simp add: merge_def Let_def merge_count_def merge_numerator_def fsub_def exact_def)
next
  assume b: "\<bar>s1\<bar> \<le> pow2 200 \<and> \<bar>c1\<bar> \<le> pow2 200 \<and> \<bar>s2\<bar> \<le> pow2 200 \<and> \<bar>c2\<bar> \<le> pow2 200"
  then have b1: "\<bar>s1\<bar> \<le> pow2 200" and b2: "\<bar>c1\<bar> \<le> pow2 200"
    and b3: "\<bar>s2\<bar> \<le> pow2 200" and b4: "\<bar>c2\<bar> \<le> pow2 200" by simp_all
  note cnt = merge_count_binary64 [OF b2 b4]
  note num = merge_numerator_binary64 [OF b1 b2 b3 b4]
  show "\<exists>r. merge binary64 \<lparr>strength = Fin s1, confidence = Fin c1, count = Fin n1\<rparr>
                    \<lparr>strength = Fin s2, confidence = Fin c2, count = Fin n2\<rparr> = Inr r
         \<and> strength r =
             (if 0 < nearest (nearest (c1 + c2) - nearest (c1 * c2))
              then binary64 (nearest (nearest (nearest (s1 * c1) + nearest (s2 * c2))
                                      - nearest (nearest (nearest (s1 * c1) * c2) * s2))
                             / nearest (nearest (c1 + c2) - nearest (c1 * c2)))
              else Fin (1 / 2))"
    by (simp add: merge_def Let_def cnt num)
qed

text \<open>
  The hypotheses of C1 hold for \<open>a = TruthValue(0.5, 0.5, 1.0)\<close> and
  \<open>b = TruthValue(0.25, 0.5, 1.0)\<close>.
\<close>

theorem merge_strength_value_witness:
  "\<exists>r. merge binary64 \<lparr>strength = Fin (1 / 2), confidence = Fin (1 / 2), count = Fin 1\<rparr>
                    \<lparr>strength = Fin (1 / 4), confidence = Fin (1 / 2), count = Fin 1\<rparr> = Inr r
     \<and> strength r =
         (if 0 < nearest (nearest (1 / 2 + 1 / 2) - nearest (1 / 2 * (1 / 2)))
          then binary64 (nearest (nearest (nearest (1 / 2 * (1 / 2)) + nearest (1 / 4 * (1 / 2)))
                                  - nearest (nearest (nearest (1 / 2 * (1 / 2)) * (1 / 2)) * (1 / 4)))
                         / nearest (nearest (1 / 2 + 1 / 2) - nearest (1 / 2 * (1 / 2))))
          else Fin (1 / 2))"
proof -
  have "\<bar>1 / 2 :: real\<bar> \<le> pow2 200" "\<bar>1 / 4 :: real\<bar> \<le> pow2 200"
    by (simp_all add: pow2_def)
  then show ?thesis
    using merge_strength_value [of "1 / 2" "1 / 2" 1 "1 / 4" "1 / 2" 1] by blast
qed

text \<open>
  C5, as the claim states it, fails: \<open>TruthValue(2.0, -1.0, 0.0)\<close> is constructed, with
  the fields as given; nothing is rejected.
\<close>

theorem construction_unchecked_counterexample:
  "TruthValue_init (Fin 2) (Fin (- 1)) (Fin 0)
     = Inr \<lparr>strength = Fin 2, confidence = Fin (- 1), count = Fin 0\<rparr>"
  by (simp add: TruthValue_init_def)

text \<open>
  C5, amended. Constructing a TruthValue raises no error whatever the strength, the
  confidence and the count are (the fields are stored unchecked), and merge raises no
  error for any pair of TruthValues, whatever the rounding.
\<close>

theorem construction_and_merge_total:
  "(\<exists>t. TruthValue_init s c n = Inr t \<and> strength t = s \<and> confidence t = c \<and> count t = n)
   \<and> (\<exists>r. merge rnd a b = Inr r)"
  using merge_total by (simp add: TruthValue_init_def)

text \<open>
  C8, as the claim states it, fails in binary64 arithmetic. With
  \<open>a = TruthValue(0.875, 0.7500000074505806)\<close> (confidence \<open>3/4 + 2^-27\<close>) and
  \<open>b = TruthValue(0.9999999999999998, 1.0)\<close> (strength \<open>1 - 2^-52\<close>), the cross term is
  rounded to \<open>5910974569644031 / 2^53\<close> when it is multiplied in the order of
  \<open>merge(a, b)\<close> and to \<open>5910974569644030 / 2^53\<close> in the order of \<open>merge(b, a)\<close>: the
  first strength is \<open>0.9999999999999999\<close>, the second is \<open>1.0\<close>.
\<close>

theorem merge_commutative_counterexample:
  "merge binary64 \<lparr>strength = Fin (7 / 8), confidence = Fin (100663297 / 134217728), count = Fin 0\<rparr>
                  \<lparr>strength = Fin (4503599627370495 / 4503599627370496), confidence = Fin 1, count = Fin 0\<rparr>
     = Inr \<lparr>strength = Fin (9007199254740991 / 9007199254740992), confidence = Fin 1, count = Fin 0\<rparr>
   \<and> merge binary64 \<lparr>strength = Fin (4503599627370495 / 4503599627370496), confidence = Fin 1, count = Fin 0\<rparr>
                  \<lparr>strength = Fin (7 / 8), confidence = Fin (100663297 / 134217728), count = Fin 0\<rparr>
     = Inr \<lparr>strength = Fin 1, confidence = Fin 1, count = Fin 0\<rparr>
   \<and> is_float (7 / 8) \<and> is_float (100663297 / 134217728)
   \<and> is_float (4503599627370495 / 4503599627370496) \<and> is_float 1"
proof -
  have r0: "binary64 (7 / 8) = Fin (7 / 8)"
    by (rule binary64_eval [of "-1" _ "7881299347898368"]) (simp_all add: pow2_def)
  have r1: "binary64 (234881025 / 134217728) = Fin (234881025 / 134217728)"
    by (rule binary64_eval [of "0" _ "7881299381452800"]) (simp_all add: pow2_def)
  have r2: "binary64 (100663297 / 134217728) = Fin (100663297 / 134217728)"
    by (rule binary64_eval [of "-1" _ "6755399508164608"]) (simp_all add: pow2_def)
  have r3: "binary64 (1) = Fin (1)"
    by (rule binary64_eval [of "0" _ "4503599627370496"]) (simp_all add: pow2_def)
  have r4: "binary64 (704643079 / 1073741824) = Fin (704643079 / 1073741824)"
    by (rule binary64_eval [of "-1" _ "5910974569644032"]) (simp_all add: pow2_def)
  have r5: "binary64 (4503599627370495 / 4503599627370496) = Fin (4503599627370495 / 4503599627370496)"
    by (rule binary64_eval [of "-1" _ "9007199254740990"]) (simp_all add: pow2_def)
  have r6: "binary64 (7459086912192511 / 4503599627370496) = Fin (7459086912192511 / 4503599627370496)"
    by (rule binary64_eval [of "0" _ "7459086912192511"]) (simp_all add: pow2_def)
  have r7: "binary64 (3173430308013598270554105 / 4835703278458516698824704) = Fin (5910974569644031 / 9007199254740992)"
    by (rule binary64_eval [of "-1" _ "5910974569644031"]) (simp_all add: pow2_def)
  have r8: "binary64 (9007199254740991 / 9007199254740992) = Fin (9007199254740991 / 9007199254740992)"
    by (rule binary64_eval [of "-1" _ "9007199254740991"]) (simp_all add: pow2_def)
  have r9: "binary64 (453347186859085467222015 / 604462909807314587353088) = Fin (3377699754082303 / 4503599627370496)"
    by (rule binary64_eval [of "-1" _ "6755399508164606"]) (simp_all add: pow2_def)
  have r10: "binary64 (23643898278576121 / 36028797018963968) = Fin (2955487284822015 / 4503599627370496)"
    by (rule binary64_eval [of "-1" _ "5910974569644030"]) (simp_all add: pow2_def)
  show ?thesis
    by (simp add: merge_def Let_def merge_count_def merge_numerator_def fsub_def is_float_def
        r0 r1 r2 r3 r4 r5 r6 r7 r8 r9 r10)
qed

text \<open>
  C8, amended. In exact arithmetic merge is commutative: \<open>merge(a, b) = merge(b, a)\<close>
  in all three fields. Whatever the rounding, \<open>merge(a, b)\<close> and \<open>merge(b, a)\<close> have the
  same confidence and the same count.
\<close>

theorem merge_commutative:
  "merge exact a b = merge exact b a
   \<and> (\<exists>r r'. merge rnd a b = Inr r \<and> merge rnd b a = Inr r'
         \<and> confidence r = confidence r' \<and> count r = count r')"
proof
  have c: "merge_count exact (confidence a) (confidence b)
      = merge_count exact (confidence b) (confidence a)"
    by (rule merge_count_commute)
  have n: "merge_numerator exact (strength a) (confidence a) (strength b) (confidence b)
      = merge_numerator exact (strength b) (confidence b) (strength a) (confidence a)"
    by (rule merge_numerator_exact_commute)
  have k: "fadd exact (count a) (count b) = fadd exact (count b) (count a)"
    by (rule fadd_commute)
  show "merge exact a b = merge exact b a"
    unfolding merge_def Let_def c n k ..
  from merge_total obtain r where r: "merge rnd a b = Inr r" by blast
  from merge_total obtain r' where r': "merge rnd b a = Inr r'" by blast
  have "confidence r = confidence r'"
    using merge_fields(1) [OF r] merge_fields(1) [OF r'] by (simp add: merge_count_commute)
  moreover have "count r = count r'"
    using merge_fields(2) [OF r] merge_fields(2) [OF r'] by (simp add: fadd_commute)
  ultimately show "\<exists>r r'. merge rnd a b = Inr r \<and> merge rnd b a = Inr r'
         \<and> confidence r = confidence r' \<and> count r = count r'"
    using r r' by blast
qed

text \<open>
  C9, as the claim states it, fails in binary64 arithmetic. With
  \<open>a = TruthValue(1.0, 1.0)\<close> and \<open>b = TruthValue(0.0, 3 * 2^-55)\<close> the sum
  \<open>1 + 3 * 2^-55\<close> rounds to \<open>1\<close>, the confidence \<open>1 - 3 * 2^-55\<close> rounds to
  \<open>1 - 2^-53\<close>, the numerator is \<open>1\<close>, and the quotient rounds to
  \<open>1 + 2^-52 = 1.0000000000000002\<close>: a strength above \<open>1\<close>.
\<close>

theorem merge_domain_counterexample:
  "merge binary64 \<lparr>strength = Fin 1, confidence = Fin 1, count = Fin 0\<rparr>
                  \<lparr>strength = Fin 0, confidence = Fin (3 / 36028797018963968), count = Fin 0\<rparr>
   = Inr \<lparr>strength = Fin (4503599627370497 / 4503599627370496),
          confidence = Fin (9007199254740991 / 9007199254740992), count = Fin 0\<rparr>
   \<and> (1 :: real) < 4503599627370497 / 4503599627370496
   \<and> is_float (3 / 36028797018963968)"
proof -
  have r1: "binary64 (36028797018963971 / 36028797018963968) = Fin (1)"
    by (rule binary64_eval [of "0" _ "4503599627370496"]) (simp_all add: pow2_def)
  have r2: "binary64 (3 / 36028797018963968) = Fin (3 / 36028797018963968)"
    by (rule binary64_eval [of "-54" _ "6755399441055744"]) (simp_all add: pow2_def)
  have r3: "binary64 (36028797018963965 / 36028797018963968) = Fin (9007199254740991 / 9007199254740992)"
    by (rule binary64_eval [of "-1" _ "9007199254740991"]) (simp_all add: pow2_def)
  have r4: "binary64 (1) = Fin (1)"
    by (rule binary64_eval [of "0" _ "4503599627370496"]) (simp_all add: pow2_def)
  have r5: "binary64 (9007199254740992 / 9007199254740991) = Fin (4503599627370497 / 4503599627370496)"
    by (rule binary64_eval [of "0" _ "4503599627370497"]) (simp_all add: pow2_def)
  show ?thesis
    by (simp add: merge_def Let_def merge_count_def merge_numerator_def fsub_def is_float_def
        r1 r2 r3 r4 r5)
qed

text \<open>
  C9, amended. When the strengths and confidences of \<open>a\<close> and \<open>b\<close> are in \<open>[0, 1]\<close> and
  their counts are not negative, the result of \<open>merge(a, b)\<close> has a strength that is not
  negative, a confidence in \<open>[0, 1]\<close> and a count that is not negative. Its strength
  is at most \<open>1\<close> in exact arithmetic; in binary64 arithmetic it can exceed \<open>1\<close> by
  rounding.
\<close>

theorem merge_domain:
  assumes "0 \<le> s1" "s1 \<le> 1" "0 \<le> c1" "c1 \<le> 1" "0 \<le> n1"
    and "0 \<le> s2" "s2 \<le> 1" "0 \<le> c2" "c2 \<le> 1" "0 \<le> n2"
  shows "(\<exists>st c n. merge binary64 \<lparr>strength = Fin s1, confidence = Fin c1, count = Fin n1\<rparr>
                                \<lparr>strength = Fin s2, confidence = Fin c2, count = Fin n2\<rparr>
             = Inr \<lparr>strength = st, confidence = Fin c, count = n\<rparr>
           \<and> fnonneg st \<and> 0 \<le> c \<and> c \<le> 1 \<and> fnonneg n)
       \<and> (\<exists>s c n. merge exact \<lparr>strength = Fin s1, confidence = Fin c1, count = Fin n1\<rparr>
                              \<lparr>strength = Fin s2, confidence = Fin c2, count = Fin n2\<rparr>
             = Inr \<lparr>strength = Fin s, confidence = Fin c, count = Fin n\<rparr>
           \<and> 0 \<le> s \<and> s \<le> 1 \<and> 0 \<le> c \<and> c \<le> 1 \<and> 0 \<le> n)"
  using merge_binary64_bounds [OF assms] merge_exact_bounds [OF assms] by simp

text \<open>The hypotheses of C9 hold at the inputs of its counterexample.\<close>

theorem merge_domain_witness:
  "(\<exists>st c n. merge binary64 \<lparr>strength = Fin 1, confidence = Fin 1, count = Fin 0\<rparr>
        \<lparr>strength = Fin 0, confidence = Fin (3 / 36028797018963968), count = Fin 0\<rparr>
             = Inr \<lparr>strength = st, confidence = Fin c, count = n\<rparr>
           \<and> fnonneg st \<and> 0 \<le> c \<and> c \<le> 1 \<and> fnonneg n)
   \<and> (\<exists>s c n. merge exact \<lparr>strength = Fin 1, confidence = Fin 1, count = Fin 0\<rparr>
        \<lparr>strength = Fin 0, confidence = Fin (3 / 36028797018963968), count = Fin 0\<rparr>
             = Inr \<lparr>strength = Fin s, confidence = Fin c, count = Fin n\<rparr>
           \<and> 0 \<le> s \<and> s \<le> 1 \<and> 0 \<le> c \<and> c \<le> 1 \<and> 0 \<le> n)"
  by (rule merge_domain) simp_all

text \<open>
  C10, as the claim states it, fails in binary64 arithmetic. With
  \<open>t = TruthValue(0.9999999999999999, 0.625)\<close> (strength \<open>1 - 2^-53\<close>) the product
  \<open>t.strength * t.confidence\<close> rounds to \<open>5/8 - 2^-53\<close>, and dividing it by \<open>5/8\<close>
  gives \<open>1 - 2^-52 = 0.9999999999999998\<close>, not the strength of \<open>t\<close>.
\<close>

theorem merge_default_counterexample:
  "merge binary64 \<lparr>strength = Fin (9007199254740991 / 9007199254740992), confidence = Fin (5 / 8), count = Fin 0\<rparr>
                  TruthValue_default
     = Inr \<lparr>strength = Fin (4503599627370495 / 4503599627370496), confidence = Fin (5 / 8), count = Fin 0\<rparr>
   \<and> is_float (9007199254740991 / 9007199254740992) \<and> is_float (5 / 8)"
proof -
  have r0: "binary64 (9007199254740991 / 9007199254740992) = Fin (9007199254740991 / 9007199254740992)"
    by (rule binary64_eval [of "-1" _ "9007199254740991"]) (simp_all add: pow2_def)
  have r1: "binary64 (5 / 8) = Fin (5 / 8)"
    by (rule binary64_eval [of "-1" _ "5629499534213120"]) (simp_all add: pow2_def)
  have r2: "binary64 (45035996273704955 / 72057594037927936) = Fin (5629499534213119 / 9007199254740992)"
    by (rule binary64_eval [of "-1" _ "5629499534213119"]) (simp_all add: pow2_def)
  have r3: "binary64 (5629499534213119 / 9007199254740992) = Fin (5629499534213119 / 9007199254740992)"
    by (rule binary64_eval [of "-1" _ "5629499534213119"]) (simp_all add: pow2_def)
  have r4: "binary64 (5629499534213119 / 5629499534213120) = Fin (4503599627370495 / 4503599627370496)"
    by (rule binary64_eval [of "-1" _ "9007199254740990"]) (simp_all add: pow2_def)
  show ?thesis
    by (simp add: merge_def Let_def merge_count_def merge_numerator_def fsub_def is_float_def
        TruthValue_default_def r0 r1 r2 r3 r4)
qed

text \<open>
  C10, amended. In exact arithmetic, for every \<open>t\<close> with finite fields and
  \<open>t.confidence > 0\<close>, \<open>merge(t, TruthValue())\<close> and \<open>merge(TruthValue(), t)\<close> both are \<open>t\<close>.
  In binary64 arithmetic, let the confidence \<open>c\<close> and the count of \<open>t\<close> be floats and
  its strength \<open>s\<close> finite. Then both results have the confidence and the count of \<open>t\<close>.
  If \<open>c > 0\<close> and \<open>s * c\<close> is below \<open>2^1024 - 2^970\<close> in magnitude, both have the
  strength \<open>P / c\<close> rounded to the nearest float, where \<open>P\<close> is the float nearest to
  \<open>s * c\<close>; this is \<open>s\<close> whenever \<open>s\<close> and \<open>s * c\<close> are floats, that is whenever the
  product is computed without a rounding error. If \<open>c \<le> 0\<close> both have the strength
  \<open>0.5\<close>.
\<close>

theorem merge_default_value:
  assumes "is_float c" and "is_float n"
  shows "(\<exists>r r'. merge binary64 \<lparr>strength = Fin s, confidence = Fin c, count = Fin n\<rparr> TruthValue_default = Inr r
      \<and> merge binary64 TruthValue_default \<lparr>strength = Fin s, confidence = Fin c, count = Fin n\<rparr> = Inr r'
      \<and> confidence r = Fin c \<and> count r = Fin n \<and> confidence r' = Fin c \<and> count r' = Fin n
      \<and> (0 < c \<and> \<bar>s * c\<bar> < pow2 1024 - pow2 970 \<longrightarrow>
           strength r = binary64 (nearest (s * c) / c) \<and> strength r' = binary64 (nearest (s * c) / c))
      \<and> (0 < c \<and> is_float s \<and> is_float (s * c) \<longrightarrow> strength r = Fin s \<and> strength r' = Fin s)
      \<and> (c \<le> 0 \<longrightarrow> strength r = Fin (1 / 2) \<and> strength r' = Fin (1 / 2)))
    \<and> (0 < c \<longrightarrow>
         merge exact \<lparr>strength = Fin s, confidence = Fin c, count = Fin n\<rparr> TruthValue_default
           = Inr \<lparr>strength = Fin s, confidence = Fin c, count = Fin n\<rparr>
       \<and> merge exact TruthValue_default \<lparr>strength = Fin s, confidence = Fin c, count = Fin n\<rparr>
           = Inr \<lparr>strength = Fin s, confidence = Fin c, count = Fin n\<rparr>)"
proof
  let ?t = "\<lparr>strength = Fin s, confidence = Fin c, count = Fin n\<rparr>"
  have fc: "binary64 c = Fin c" and fn: "binary64 n = Fin n"
    using assms by (simp_all add: is_float_def)
  from merge_total obtain r where r: "merge binary64 ?t TruthValue_default = Inr r" by blast
  from merge_total obtain r' where r': "merge binary64 TruthValue_default ?t = Inr r'" by blast
  have c: "confidence r = Fin c" "confidence r' = Fin c"
    using merge_fields(1) [OF r] merge_fields(1) [OF r'] fc
    by (simp_all add: merge_count_def fsub_def TruthValue_default_def)
  have n: "count r = Fin n" "count r' = Fin n"
    using merge_fields(2) [OF r] merge_fields(2) [OF r'] fn
    by (simp_all add: TruthValue_default_def)
  have v: "strength r = binary64 (p / c) \<and> strength r' = binary64 (p / c)"
    if "0 < c" and p: "binary64 (s * c) = Fin p" for p
  proof -
    have pp: "binary64 p = Fin p" using p by (rule binary64_idem)
    have pos: "fpositive (confidence r)" "fpositive (confidence r')" using c that(1) by simp_all
    have "strength r = binary64 (p / c)"
      using merge_fields(3) [OF r pos(1)] c(1) that(1)
      by (simp add: merge_numerator_def fsub_def TruthValue_default_def p pp)
    moreover have "strength r' = binary64 (p / c)"
      using merge_fields(3) [OF r' pos(2)] c(2) that(1)
      by (simp add: merge_numerator_def fsub_def TruthValue_default_def p pp)
    ultimately show ?thesis by simp
  qed
  have 1: "strength r = binary64 (nearest (s * c) / c) \<and> strength r' = binary64 (nearest (s * c) / c)"
    if "0 < c \<and> \<bar>s * c\<bar> < pow2 1024 - pow2 970"
  proof -
    have "binary64 (s * c) = Fin (nearest (s * c))" using that by (intro binary64_finite) simp
    with that show ?thesis by (intro v) simp_all
  qed
  have 2: "strength r = Fin s \<and> strength r' = Fin s"
    if "0 < c \<and> is_float s \<and> is_float (s * c)"
  proof -
    have "binary64 (s * c) = Fin (s * c)" and fs: "binary64 s = Fin s"
      using that by (simp_all add: is_float_def)
    with that have "strength r = binary64 (s * c / c) \<and> strength r' = binary64 (s * c / c)"
      by (intro v) simp_all
    moreover have "s * c / c = s" using that by simp
    ultimately show ?thesis using fs by simp
  qed
  have 3: "strength r = Fin (1 / 2) \<and> strength r' = Fin (1 / 2)" if "c \<le> 0"
  proof -
    have "\<not> fpositive (confidence r)" "\<not> fpositive (confidence r')" using c that by simp_all
    then show ?thesis using merge_fields(4) [OF r] merge_fields(4) [OF r'] by simp
  qed
  show "\<exists>r r'. merge binary64 ?t TruthValue_default = Inr r
      \<and> merge binary64 TruthValue_default ?t = Inr r'
      \<and> confidence r = Fin c \<and> count r = Fin n \<and> confidence r' = Fin c \<and> count r' = Fin n
      \<and> (0 < c \<and> \<bar>s * c\<bar> < pow2 1024 - pow2 970 \<longrightarrow>
           strength r = binary64 (nearest (s * c) / c) \<and> strength r' = binary64 (nearest (s * c) / c))
      \<and> (0 < c \<and> is_float s \<and> is_float (s * c) \<longrightarrow> strength r = Fin s \<and> strength r' = Fin s)
      \<and> (c \<le> 0 \<longrightarrow> strength r = Fin (1 / 2) \<and> strength r' = Fin (1 / 2))"
    using r r' c n 1 2 3 by blast
next
  show "0 < c \<longrightarrow>
         merge exact \<lparr>strength = Fin s, confidence = Fin c, count = Fin n\<rparr> TruthValue_default
           = Inr \<lparr>strength = Fin s, confidence = Fin c, count = Fin n\<rparr>
       \<and> merge exact TruthValue_default \<lparr>strength = Fin s, confidence = Fin c, count = Fin n\<rparr>
           = Inr \<lparr>strength = Fin s, confidence = Fin c, count = Fin n\<rparr>"
    by (simp add: merge_def Let_def merge_count_def merge_numerator_def fsub_def exact_def
        TruthValue_default_def)
qed

text \<open>
  The hypotheses of C10 hold for \<open>t = TruthValue(0.5, 0.75, 2.0)\<close>, whose product
  \<open>0.375\<close> is exact.
\<close>

theorem merge_default_value_witness:
  "merge binary64 \<lparr>strength = Fin (1 / 2), confidence = Fin (3 / 4), count = Fin 2\<rparr> TruthValue_default
     = Inr \<lparr>strength = Fin (1 / 2), confidence = Fin (3 / 4), count = Fin 2\<rparr>
   \<and> merge binary64 TruthValue_default \<lparr>strength = Fin (1 / 2), confidence = Fin (3 / 4), count = Fin 2\<rparr>
     = Inr \<lparr>strength = Fin (1 / 2), confidence = Fin (3 / 4), count = Fin 2\<rparr>
   \<and> merge exact \<lparr>strength = Fin (1 / 2), confidence = Fin (3 / 4), count = Fin 2\<rparr> TruthValue_default
     = Inr \<lparr>strength = Fin (1 / 2), confidence = Fin (3 / 4), count = Fin 2\<rparr>"
proof -
  have r1: "binary64 (3 / 4) = Fin (3 / 4)"
    by (rule binary64_eval [of "-1" _ "6755399441055744"]) (simp_all add: pow2_def)
  have r2: "binary64 (3 / 8) = Fin (3 / 8)"
    by (rule binary64_eval [of "-2" _ "6755399441055744"]) (simp_all add: pow2_def)
  have r3: "binary64 (1 / 2) = Fin (1 / 2)"
    by (rule binary64_eval [of "-1" _ "4503599627370496"]) (simp_all add: pow2_def)
  have r4: "binary64 (2) = Fin (2)"
    by (rule binary64_eval [of "1" _ "4503599627370496"]) (simp_all add: pow2_def)
  have f1: "is_float (3 / 4)" and f2: "is_float 2" by (simp_all add: is_float_def r1 r4)
  have f3: "(0 :: real) < 3 / 4 \<and> is_float (1 / 2) \<and> is_float (1 / 2 * (3 / 4))"
    by (simp add: is_float_def r2 r3)
  note th = merge_default_value [of "3 / 4" 2 "1 / 2", OF f1 f2]
  from th obtain r r' where
    "merge binary64 \<lparr>strength = Fin (1 / 2), confidence = Fin (3 / 4), count = Fin 2\<rparr> TruthValue_default = Inr r"
    "merge binary64 TruthValue_default \<lparr>strength = Fin (1 / 2), confidence = Fin (3 / 4), count = Fin 2\<rparr> = Inr r'"
    "confidence r = Fin (3 / 4)" "count r = Fin 2" "confidence r' = Fin (3 / 4)" "count r' = Fin 2"
    "0 < (3 / 4 :: real) \<and> is_float (1 / 2) \<and> is_float (1 / 2 * (3 / 4)) \<longrightarrow>
       strength r = Fin (1 / 2) \<and> strength r' = Fin (1 / 2)"
    by blast
  moreover have "merge exact \<lparr>strength = Fin (1 / 2), confidence = Fin (3 / 4), count = Fin 2\<rparr> TruthValue_default
     = Inr \<lparr>strength = Fin (1 / 2), confidence = Fin (3 / 4), count = Fin 2\<rparr>"
    using th by simp
  ultimately show ?thesis using f3 by simp
qed


section \<open>Properties of compute_ppm_coherence\<close>

lemma ppm_loop_eq: "ppm_loop ps (a, t) = (a * prod_list ps, t + sum_list ps)"
  by (induction ps arbitrary: a t) (simp_all add: algebra_simps)

lemma positive_product_sum:
  fixes ps :: "int list"
  assumes "ps \<noteq> []" and "\<forall>p\<in>set ps. 0 < p"
  shows "1 \<le> prod_list ps" and "1 \<le> sum_list ps"
proof -
  have "(\<forall>p\<in>set ps. (0::int) < p) \<Longrightarrow> 1 \<le> prod_list ps \<and> 0 \<le> sum_list ps"
  proof (induction ps)
    case Nil
    then show ?case by simp
  next
    case (Cons p ps)
    then have "1 \<le> p" "1 \<le> prod_list ps" "0 \<le> sum_list ps" by simp_all
    then have "1 * 1 \<le> p * prod_list ps" by (intro mult_mono) simp_all
    with \<open>1 \<le> p\<close> \<open>0 \<le> sum_list ps\<close> show ?case by simp
  qed
  with assms(2) show "1 \<le> prod_list ps" by simp
  obtain p qs where ps: "ps = p # qs" using assms(1) by (cases ps) auto
  have "\<forall>q\<in>set qs. 0 \<le> q" using assms(2) ps by (auto intro: less_imp_le)
  then have "0 \<le> sum_list qs" by (intro sum_list_nonneg) auto
  moreover have "1 \<le> p" using assms(2) ps by simp
  ultimately show "1 \<le> sum_list ps" using ps by simp
qed

lemma pow2_double: "pow2 (2 * k) = pow2 k * pow2 k"
  using pow2_add [of k k] by simp

lemma sqrt_pow2_1024: "sqrt (pow2 1024) = pow2 512"
  using pow2_double [of 512] by simp

lemma ppm_binary64:
  assumes "1 \<le> product" and "1 \<le> total'"
    and "real_of_int product < pow2 1024 - pow2 970"
    and "real_of_int total' < pow2 1024 - pow2 970"
    and sn: "\<And>y. \<bar>libm_sin y\<bar> \<le> 1"
  shows "\<exists>x. (case int_to_float binary64 product of Inl e \<Rightarrow> Inl e | Inr product_f \<Rightarrow>
          (case math_sqrt binary64 product_f of Inl e \<Rightarrow> Inl e | Inr sqrt_product \<Rightarrow>
          (case int_to_float binary64 total' of Inl e \<Rightarrow> Inl e | Inr total_f \<Rightarrow>
          (case fdiv binary64 (fmul binary64 sqrt_product PI) total_f of Inl e \<Rightarrow> Inl e | Inr q \<Rightarrow>
          (case math_sin libm_sin q of Inl e \<Rightarrow> Inl e | Inr s \<Rightarrow>
             Inr (fadd binary64 (Fin (1 / 2)) (fmul binary64 (Fin (1 / 2)) s))))))) = Inr (Fin x)
        \<and> x = coherence_value nearest libm_sin (884279719003555 / 281474976710656) product total'
        \<and> 0 \<le> x \<and> x \<le> 1"
proof -
  let ?pi = "884279719003555 / 281474976710656 :: real"
  let ?fp = "nearest (of_int product)"
  let ?sq = "nearest (sqrt ?fp)"
  let ?sp = "nearest (?sq * ?pi)"
  let ?ft = "nearest (of_int total')"
  let ?q = "nearest (?sp / ?ft)"
  let ?s = "libm_sin ?q"
  let ?h = "nearest (1 / 2 * ?s)"
  let ?x = "nearest (1 / 2 + ?h)"
  have one: "nearest 1 = 1" and half: "nearest (1 / 2) = 1 / 2" by (simp_all add: nearest_consts)
  have p512: "nearest (pow2 512) = pow2 512" and p514: "nearest (pow2 514) = pow2 514"
    by (simp_all add: nearest_pow2)
  have lt: "pow2 512 < pow2 1024" "pow2 514 < pow2 1024" "1 < pow2 1024" "1 / 2 < pow2 1024"
    using pow2_less_iff [of 512 1024] pow2_less_iff [of 514 1024] pow2_less_iff [of 0 1024]
    by (simp_all add: pow2_def [of 0])
  \<comment> \<open>the product as a float\<close>
  have fp_abs: "\<bar>real_of_int product\<bar> < pow2 1024 - pow2 970" using assms(1,3) by simp
  have fp: "binary64 (of_int product) = Fin ?fp" using fp_abs by (rule binary64_finite)
  have fp1: "1 \<le> ?fp" using assms(1) one by (intro nearest_ge) simp_all
  have "0 \<le> real_of_int product" using assms(1) by simp
  then have fp_lt: "?fp < pow2 1024" using assms(3) by (rule nearest_below_overflow_pos)
  \<comment> \<open>its square root\<close>
  have "sqrt ?fp \<le> sqrt (pow2 1024)" using fp_lt by simp
  then have "sqrt ?fp \<le> pow2 512" by (simp only: sqrt_pow2_1024)
  moreover have "0 \<le> sqrt ?fp" using fp1 by simp
  ultimately have sq_le: "\<bar>sqrt ?fp\<bar> \<le> pow2 512" by simp
  have sq: "binary64 (sqrt ?fp) = Fin ?sq" and sq_b: "\<bar>?sq\<bar> \<le> pow2 512"
    using binary64_bounded [OF sq_le p512 lt(1)] by simp_all
  \<comment> \<open>times pi\<close>
  have "\<bar>?sq * ?pi\<bar> = \<bar>?sq\<bar> * ?pi" by (simp add: abs_mult)
  also have "\<dots> \<le> pow2 512 * 4" using sq_b by (intro mult_mono) simp_all
  also have "\<dots> = pow2 514" using pow2_add [of 512 2] by (simp add: pow2_def [of 2])
  finally have sp_le: "\<bar>?sq * ?pi\<bar> \<le> pow2 514" .
  have sp: "binary64 (?sq * ?pi) = Fin ?sp" and sp_b: "\<bar>?sp\<bar> \<le> pow2 514"
    using binary64_bounded [OF sp_le p514 lt(2)] by simp_all
  \<comment> \<open>the total as a float\<close>
  have ft_abs: "\<bar>real_of_int total'\<bar> < pow2 1024 - pow2 970" using assms(2,4) by simp
  have ft: "binary64 (of_int total') = Fin ?ft" using ft_abs by (rule binary64_finite)
  have ft1: "1 \<le> ?ft" using assms(2) one by (intro nearest_ge) simp_all
  \<comment> \<open>the quotient\<close>
  have "\<bar>?sp / ?ft\<bar> = \<bar>?sp\<bar> / ?ft" using ft1 by (simp add: abs_divide)
  also have "\<dots> \<le> \<bar>?sp\<bar> / 1" using ft1 by (intro divide_left_mono) simp_all
  finally have q_le: "\<bar>?sp / ?ft\<bar> \<le> pow2 514" using sp_b by simp
  have q: "binary64 (?sp / ?ft) = Fin ?q"
    using binary64_bounded(1) [OF q_le p514 lt(2)] .
  \<comment> \<open>the sine of the library, its half, and the sum\<close>
  have s_b: "\<bar>?s\<bar> \<le> 1" by (rule sn)
  have h_le: "\<bar>1 / 2 * ?s\<bar> \<le> 1 / 2" using s_b by simp
  have h: "binary64 (1 / 2 * ?s) = Fin ?h" and h_b: "\<bar>?h\<bar> \<le> 1 / 2"
    using binary64_bounded [OF h_le half lt(4)] by simp_all
  have x_le: "\<bar>1 / 2 + ?h\<bar> \<le> 1" using h_b by linarith
  have x: "binary64 (1 / 2 + ?h) = Fin ?x"
    using binary64_bounded(1) [OF x_le one lt(3)] .
  have "0 \<le> 1 / 2 + ?h" using h_b by linarith
  then have x0: "0 \<le> ?x" by (rule nearest_nonneg)
  have "1 / 2 + ?h \<le> 1" using h_b by linarith
  then have x1: "?x \<le> 1" using one by (rule nearest_le)
  have ft0: "?ft \<noteq> 0" using ft1 by linarith
  have fp0: "\<not> ?fp < 0" using fp1 by linarith
  have "(case int_to_float binary64 product of Inl e \<Rightarrow> Inl e | Inr product_f \<Rightarrow>
          (case math_sqrt binary64 product_f of Inl e \<Rightarrow> Inl e | Inr sqrt_product \<Rightarrow>
          (case int_to_float binary64 total' of Inl e \<Rightarrow> Inl e | Inr total_f \<Rightarrow>
          (case fdiv binary64 (fmul binary64 sqrt_product PI) total_f of Inl e \<Rightarrow> Inl e | Inr q \<Rightarrow>
          (case math_sin libm_sin q of Inl e \<Rightarrow> Inl e | Inr s \<Rightarrow>
             Inr (fadd binary64 (Fin (1 / 2)) (fmul binary64 (Fin (1 / 2)) s))))))) = Inr (Fin ?x)"
    by (simp only: int_to_float_def fp ft pyfloat.case sum.case math_sqrt.simps fp0 if_False
        sq PI_def fmul.simps sp fdiv.simps ft0 q math_sin.simps h fadd.simps x)
  then show ?thesis
    using x0 x1 unfolding coherence_value_def by blast
qed

lemma compute_ppm_unfold:
  assumes "ps \<noteq> []" and "sum_list ps \<noteq> 0"
  shows "compute_ppm_coherence rnd libm_sin ps =
    (case int_to_float rnd (prod_list ps) of Inl e \<Rightarrow> Inl e | Inr product_f \<Rightarrow>
          (case math_sqrt rnd product_f of Inl e \<Rightarrow> Inl e | Inr sqrt_product \<Rightarrow>
          (case int_to_float rnd (sum_list ps) of Inl e \<Rightarrow> Inl e | Inr total_f \<Rightarrow>
          (case fdiv rnd (fmul rnd sqrt_product PI) total_f of Inl e \<Rightarrow> Inl e | Inr q \<Rightarrow>
          (case math_sin libm_sin q of Inl e \<Rightarrow> Inl e | Inr s \<Rightarrow>
             Inr (fadd rnd (Fin (1 / 2)) (fmul rnd (Fin (1 / 2)) s)))))))"
  using assms by (simp add: compute_ppm_coherence_def ppm_loop_eq)

text \<open>
  C2, as the claim states it, fails: for the one-element list \<open>[2 ** 1024]\<close> the product
  is too large for a float and \<^verbatim>\<open>math.sqrt(product)\<close> raises \<^verbatim>\<open>OverflowError\<close>; nothing
  is returned. The sine is not reached; it is taken to be the real sine here.
\<close>

theorem ppm_coherence_counterexample:
  "compute_ppm_coherence binary64 sin [2 ^ 1024] = Inl OverflowError"
proof -
  have "pow2 1024 - pow2 970 \<le> real_of_int (2 ^ 1024)"
    using pow2_pos [of 970] by (simp add: pow2_def [of 1024])
  then have "binary64 (real_of_int (2 ^ 1024)) = PInf" by (rule binary64_overflow)
  then have "int_to_float binary64 (2 ^ 1024) = Inl OverflowError"
    by (simp only: int_to_float_def pyfloat.case)
  moreover have "compute_ppm_coherence binary64 sin [2 ^ 1024] =
    (case int_to_float binary64 (prod_list [2 ^ 1024]) of Inl e \<Rightarrow> Inl e | Inr product_f \<Rightarrow>
          (case math_sqrt binary64 product_f of Inl e \<Rightarrow> Inl e | Inr sqrt_product \<Rightarrow>
          (case int_to_float binary64 (sum_list [2 ^ 1024]) of Inl e \<Rightarrow> Inl e | Inr total_f \<Rightarrow>
          (case fdiv binary64 (fmul binary64 sqrt_product PI) total_f of Inl e \<Rightarrow> Inl e | Inr q \<Rightarrow>
          (case math_sin sin q of Inl e \<Rightarrow> Inl e | Inr s \<Rightarrow>
             Inr (fadd binary64 (Fin (1 / 2)) (fmul binary64 (Fin (1 / 2)) s)))))))"
    by (rule compute_ppm_unfold) simp_all
  ultimately show ?thesis by simp
qed

text \<open>
  C2, amended. For the empty list the result is exactly \<open>0.5\<close>. Let the sine of the
  library, \<open>libm_sin\<close>, return values in \<open>[-1, 1]\<close>; nothing else is assumed of it, in
  particular not that it returns the float nearest to the sine. For every non-empty
  list of positive integers whose product and sum are below \<open>2^1024 - 2^970\<close> (the ints
  that convert to a float), the result is
  \<open>0.5 + 0.5 * libm_sin(sqrt(product) * pi / sum)\<close> with the conversions, the square
  root, the product, the quotient, the half and the sum each rounded to the nearest
  float, and it lies in \<open>[0, 1]\<close>. When the product is \<open>2^1024 - 2^970\<close> or more,
  \<^verbatim>\<open>OverflowError\<close> is raised. In exact arithmetic with the real sine the result is the
  real number \<open>1/2 + 1/2 * sin(sqrt(product) * p / sum)\<close>, \<open>p\<close> the value of the float
  \<^verbatim>\<open>math.pi\<close>, for every non-empty list of positive integers.
\<close>

theorem ppm_coherence:
  assumes "\<forall>p\<in>set ps. 0 < p" and "\<And>y. \<bar>libm_sin y\<bar> \<le> 1"
  shows "compute_ppm_coherence binary64 libm_sin [] = Inr (Fin (1 / 2))
    \<and> (ps \<noteq> [] \<and> real_of_int (prod_list ps) < pow2 1024 - pow2 970
          \<and> real_of_int (sum_list ps) < pow2 1024 - pow2 970 \<longrightarrow>
        (\<exists>x. compute_ppm_coherence binary64 libm_sin ps = Inr (Fin x)
           \<and> x = coherence_value nearest libm_sin (884279719003555 / 281474976710656)
                   (prod_list ps) (sum_list ps)
           \<and> 0 \<le> x \<and> x \<le> 1))
    \<and> (ps \<noteq> [] \<and> pow2 1024 - pow2 970 \<le> real_of_int (prod_list ps) \<longrightarrow>
        compute_ppm_coherence binary64 libm_sin ps = Inl OverflowError)
    \<and> (ps \<noteq> [] \<longrightarrow> compute_ppm_coherence exact sin ps
          = Inr (Fin (1 / 2 + 1 / 2 * sin (sqrt (real_of_int (prod_list ps))
                   * (884279719003555 / 281474976710656) / real_of_int (sum_list ps)))))"
proof (intro conjI impI)
  show "compute_ppm_coherence binary64 libm_sin [] = Inr (Fin (1 / 2))"
    by (simp add: compute_ppm_coherence_def)
next
  assume a: "ps \<noteq> [] \<and> real_of_int (prod_list ps) < pow2 1024 - pow2 970
          \<and> real_of_int (sum_list ps) < pow2 1024 - pow2 970"
  then have ne: "ps \<noteq> []" by simp
  note pos = positive_product_sum [OF ne assms(1)]
  have t: "sum_list ps \<noteq> 0" using pos(2) by simp
  from a have lt: "real_of_int (prod_list ps) < pow2 1024 - pow2 970"
    "real_of_int (sum_list ps) < pow2 1024 - pow2 970" by simp_all
  from ppm_binary64 [OF pos lt assms(2)]
  show "\<exists>x. compute_ppm_coherence binary64 libm_sin ps = Inr (Fin x)
           \<and> x = coherence_value nearest libm_sin (884279719003555 / 281474976710656)
                   (prod_list ps) (sum_list ps)
           \<and> 0 \<le> x \<and> x \<le> 1"
    by (simp only: compute_ppm_unfold [OF ne t])
next
  assume a: "ps \<noteq> [] \<and> pow2 1024 - pow2 970 \<le> real_of_int (prod_list ps)"
  then have ne: "ps \<noteq> []" by simp
  note pos = positive_product_sum [OF ne assms(1)]
  have t: "sum_list ps \<noteq> 0" using pos(2) by simp
  have "binary64 (real_of_int (prod_list ps)) = PInf" using a by (intro binary64_overflow) simp
  then have "int_to_float binary64 (prod_list ps) = Inl OverflowError"
    by (simp only: int_to_float_def pyfloat.case)
  then show "compute_ppm_coherence binary64 libm_sin ps = Inl OverflowError"
    by (simp add: compute_ppm_unfold [OF ne t])
next
  assume ne: "ps \<noteq> []"
  note pos = positive_product_sum [OF ne assms(1)]
  have t: "sum_list ps \<noteq> 0" using pos(2) by simp
  have p: "\<not> real_of_int (prod_list ps) < 0" using pos(1) by simp
  show "compute_ppm_coherence exact sin ps
          = Inr (Fin (1 / 2 + 1 / 2 * sin (sqrt (real_of_int (prod_list ps))
                   * (884279719003555 / 281474976710656) / real_of_int (sum_list ps))))"
    using t p
    by (simp add: compute_ppm_unfold [OF ne t] int_to_float_def exact_def PI_def)
qed

text \<open>
  The hypotheses of C2 hold for \<open>[2, 3, 5, 7]\<close>, the list of the test suite (the product
  is \<open>210\<close> and the sum \<open>17\<close>), and for a library whose sine is the float nearest to the
  real sine.
\<close>

theorem ppm_coherence_witness:
  "\<exists>x. compute_ppm_coherence binary64 (\<lambda>y. nearest (sin y)) [2, 3, 5, 7] = Inr (Fin x)
     \<and> x = coherence_value nearest (\<lambda>y. nearest (sin y))
             (884279719003555 / 281474976710656) 210 17
     \<and> 0 \<le> x \<and> x \<le> 1"
proof -
  have "pow2 8 \<le> pow2 1024 - pow2 970" by (rule threshold_gt) simp
  then have "real_of_int (prod_list [2, 3, 5, 7]) < pow2 1024 - pow2 970"
    "real_of_int (sum_list [2, 3, 5, 7]) < pow2 1024 - pow2 970"
    by (simp_all add: pow2_def [of 8])
  moreover have "\<forall>p\<in>set [2, 3, 5, 7 :: int]. 0 < p" by simp
  moreover have "\<And>y. \<bar>nearest (sin y)\<bar> \<le> 1"
    by (rule nearest_abs_le) (simp_all add: nearest_consts)
  ultimately show ?thesis
    using ppm_coherence [of "[2, 3, 5, 7]" "\<lambda>y. nearest (sin y)"] by simp
qed

section \<open>Properties of prime_encode\<close>

lemma length_primes [simp]: "length FUNDAMENTAL_PRIMES = 15"
  by (simp add: FUNDAMENTAL_PRIMES_def)

lemma getitem_primes:
  "py_getitem FUNDAMENTAL_PRIMES (n mod 15) = Inr (FUNDAMENTAL_PRIMES ! nat (n mod 15))"
  by (simp add: py_getitem_def)

lemma encode_loop_append:
  "encode_loop rnd (xs @ ys) st =
     (case encode_loop rnd xs st of Inl e \<Rightarrow> Inl e | Inr st' \<Rightarrow> encode_loop rnd ys st')"
  by (induction xs arbitrary: st) (auto split: sum.splits)

lemma encode_loop_idle: "15 \<le> a \<Longrightarrow> encode_loop rnd [a..<a + m] st = Inr st"
proof (induction m arbitrary: a)
  case 0
  then show ?case by simp
next
  case (Suc m)
  have "[a..<a + Suc m] = a # [Suc a..<Suc a + m]" by (simp add: upt_conv_Cons)
  moreover have "encode_step rnd a st = Inr st" using Suc.prems by (cases st) (simp add: encode_step_def)
  moreover have "encode_loop rnd [Suc a..<Suc a + m] st = Inr st" using Suc.prems by (intro Suc.IH) simp
  ultimately show ?case by simp
qed

lemma trunc_zero_nonneg: "0 \<le> x \<Longrightarrow> trunc_zero x = \<lfloor>x\<rfloor>"
  by (simp add: trunc_zero_def)

lemma encode_step_ok:
  assumes "steps_ok rnd r phi v" and "i < 15" and "GOLDEN_RATIO = Fin phi"
  shows "encode_step rnd i (Fin v, ps) =
    Inr (Fin (frac (r (v * phi))), ps @ [FUNDAMENTAL_PRIMES ! nat (\<lfloor>r (v * 15)\<rfloor> mod 15)])"
proof -
  from assms(1) have a: "rnd (v * 15) = Fin (r (v * 15))" "0 \<le> r (v * 15)"
    "rnd (v * phi) = Fin (r (v * phi))" "0 \<le> r (v * phi)"
    by (simp_all add: steps_ok_def)
  have "\<not> r (v * phi) - real_of_int \<lfloor>r (v * phi)\<rfloor> < 0"
    using of_int_floor_le [of "r (v * phi)"] by linarith
  then have m: "float_mod1 rnd (Fin (r (v * phi))) = Fin (frac (r (v * phi)))"
    using a(4) by (simp add: trunc_zero_nonneg frac_def Let_def)
  have p: "fmul rnd (Fin v) GOLDEN_RATIO = Fin (r (v * phi))"
    by (simp add: assms(3) a(3))
  have q: "py_int (rnd (v * 15)) = Inr \<lfloor>r (v * 15)\<rfloor>"
    by (simp add: a(1) a(2) trunc_zero_nonneg)
  show ?thesis
    using assms(2) by (simp add: encode_step_def getitem_primes p q m del: float_mod1.simps)
qed

lemma encode_loop_selected:
  assumes "\<And>w. 0 \<le> w \<Longrightarrow> w < 1 \<Longrightarrow> steps_ok rnd r phi w"
    and "GOLDEN_RATIO = Fin phi"
  shows "steps_ok rnd r phi v \<Longrightarrow> i + n \<le> 15 \<Longrightarrow>
    \<exists>w. encode_loop rnd [i..<i + n] (Fin v, ps) = Inr (Fin w, ps @ selected r phi n v)"
proof (induction n arbitrary: i v ps)
  case 0
  then show ?case by simp
next
  case (Suc n)
  let ?v' = "frac (r (v * phi))"
  let ?p = "FUNDAMENTAL_PRIMES ! nat (\<lfloor>r (v * 15)\<rfloor> mod 15)"
  have i: "i < 15" using Suc.prems(2) by simp
  have step: "encode_step rnd i (Fin v, ps) = Inr (Fin ?v', ps @ [?p])"
    using Suc.prems(1) i assms(2) by (rule encode_step_ok)
  have ok: "steps_ok rnd r phi ?v'" by (intro assms(1)) (simp_all add: frac_lt_1)
  from Suc.IH [OF ok, of "Suc i" "ps @ [?p]"] Suc.prems(2)
  obtain w where "encode_loop rnd [Suc i..<Suc i + n] (Fin ?v', ps @ [?p])
      = Inr (Fin w, (ps @ [?p]) @ selected r phi n ?v')" by auto
  moreover have "[i..<i + Suc n] = i # [Suc i..<Suc i + n]" by (simp add: upt_conv_Cons)
  ultimately show ?case using step by simp
qed

lemma prime_encode_selected:
  assumes "\<And>w. 0 \<le> w \<Longrightarrow> w < 1 \<Longrightarrow> steps_ok rnd r phi w"
    and "GOLDEN_RATIO = Fin phi" and "steps_ok rnd r phi \<bar>x\<bar>"
  shows "prime_encode rnd (Fin x) k = Inr (encoding r phi x k)"
proof -
  let ?n = "min (nat k) 15"
  let ?m = "nat k - ?n"
  have split: "[0..<nat k] = [0..<0 + ?n] @ [?n..<?n + ?m]"
    using upt_add_eq_append [of 0 ?n ?m] by simp
  from encode_loop_selected [OF assms(1,2) assms(3), of 0 ?n "[]"]
  obtain w where w: "encode_loop rnd [0..<0 + ?n] (Fin \<bar>x\<bar>, []) = Inr (Fin w, selected r phi ?n \<bar>x\<bar>)"
    by auto
  have idle: "encode_loop rnd [?n..<?n + ?m] (Fin w, selected r phi ?n \<bar>x\<bar>)
      = Inr (Fin w, selected r phi ?n \<bar>x\<bar>)"
  proof (cases "nat k \<le> 15")
    case True
    then show ?thesis by (simp add: min_def)
  next
    case False
    then have "15 \<le> ?n" by simp
    then show ?thesis by (rule encode_loop_idle)
  qed
  have "encode_loop rnd [0..<nat k] (Fin \<bar>x\<bar>, []) = Inr (Fin w, selected r phi ?n \<bar>x\<bar>)"
    by (subst split) (simp only: encode_loop_append w idle sum.case)
  then show ?thesis by (simp add: prime_encode_def encoding_def)
qed

lemma golden_ratio_value:
  "GOLDEN_RATIO = Fin (910872158600853 / 562949953421312)"
  by (simp add: GOLDEN_RATIO_def)

lemma steps_ok_binary64:
  assumes "0 \<le> v" and "v * 15 < pow2 1024 - pow2 970"
  shows "steps_ok binary64 nearest (910872158600853 / 562949953421312) v"
proof -
  let ?phi = "910872158600853 / 562949953421312 :: real"
  have a: "\<bar>v * 15\<bar> < pow2 1024 - pow2 970" using assms by simp
  have "v * ?phi \<le> v * 15" using assms(1) by (intro mult_left_mono) simp_all
  moreover have "0 \<le> v * ?phi" using assms(1) by simp
  ultimately have b: "\<bar>v * ?phi\<bar> < pow2 1024 - pow2 970" using assms(2) by linarith
  show ?thesis
    unfolding steps_ok_def
    using binary64_finite [OF a] binary64_finite [OF b] assms(1)
    by (simp add: nearest_nonneg)
qed

lemma steps_ok_binary64_unit:
  assumes "0 \<le> w" and "w < 1"
  shows "steps_ok binary64 nearest (910872158600853 / 562949953421312) w"
proof -
  have "w * 15 < pow2 4" using assms by (simp add: pow2_def)
  also have "pow2 4 \<le> pow2 1024 - pow2 970" by (rule threshold_gt) simp
  finally show ?thesis using assms(1) by (intro steps_ok_binary64)
qed

lemma prime_encode_binary64:
  assumes "\<bar>x\<bar> * 15 < pow2 1024 - pow2 970"
  shows "prime_encode binary64 (Fin x) k
    = Inr (encoding nearest (910872158600853 / 562949953421312) x k)"
  by (rule prime_encode_selected [OF steps_ok_binary64_unit golden_ratio_value])
    (simp_all add: steps_ok_binary64 assms)

lemma steps_ok_exact: "0 \<le> v \<Longrightarrow> steps_ok exact (\<lambda>y. y) (910872158600853 / 562949953421312) v"
  by (simp add: steps_ok_def exact_def)

lemma prime_encode_exact:
  "prime_encode exact (Fin x) k
    = Inr (encoding (\<lambda>y. y) (910872158600853 / 562949953421312) x k)"
  by (rule prime_encode_selected [OF steps_ok_exact golden_ratio_value])
    (simp_all add: steps_ok_exact)

lemma selected_length [simp]: "length (selected r phi n v) = n"
  by (induction n arbitrary: v) simp_all

lemma selected_subset: "set (selected r phi n v) \<subseteq> set FUNDAMENTAL_PRIMES"
proof (induction n arbitrary: v)
  case 0
  then show ?case by simp
next
  case (Suc n)
  have "nat (\<lfloor>r (v * 15)\<rfloor> mod 15) < length FUNDAMENTAL_PRIMES" by simp
  then have "FUNDAMENTAL_PRIMES ! nat (\<lfloor>r (v * 15)\<rfloor> mod 15) \<in> set FUNDAMENTAL_PRIMES"
    by (rule nth_mem)
  with Suc.IH show ?case by simp
qed

lemma encoding_properties:
  "sorted_wrt (<) (encoding r phi x k)" "distinct (encoding r phi x k)"
  "length (encoding r phi x k) \<le> min (nat k) 15"
  "set (encoding r phi x k) \<subseteq> set FUNDAMENTAL_PRIMES"
proof -
  let ?xs = "selected r phi (min (nat k) 15) \<bar>x\<bar>"
  show "sorted_wrt (<) (encoding r phi x k)" by (simp add: encoding_def)
  show "distinct (encoding r phi x k)" by (simp add: encoding_def)
  have "card (set ?xs) \<le> length ?xs" by (rule card_length)
  then show "length (encoding r phi x k) \<le> min (nat k) 15" by (simp add: encoding_def)
  show "set (encoding r phi x k) \<subseteq> set FUNDAMENTAL_PRIMES"
    using selected_subset [of r phi "min (nat k) 15" "\<bar>x\<bar>"] by (simp add: encoding_def)
qed

lemma upt_nat_pos: "1 \<le> k \<Longrightarrow> [0..<nat k] = 0 # [1..<nat k]"
  by (simp add: upt_conv_Cons)

lemma prime_encode_first_error:
  assumes "1 \<le> k" and "py_int (fmul rnd (fabs v) (Fin 15)) = Inl e"
  shows "prime_encode rnd v k = Inl e"
  using assms by (simp add: prime_encode_def upt_nat_pos encode_step_def)

lemma prime_encode_overflow:
  assumes "1 \<le> k" and "pow2 1024 - pow2 970 \<le> \<bar>x\<bar> * 15"
  shows "prime_encode binary64 (Fin x) k = Inl OverflowError"
  using assms(1) by (rule prime_encode_first_error) (simp add: binary64_overflow [OF assms(2)])

lemma prime_encode_nonfinite:
  assumes "1 \<le> k"
  shows "prime_encode rnd NaN k = Inl ValueError"
    and "prime_encode rnd PInf k = Inl OverflowError"
    and "prime_encode rnd NInf k = Inl OverflowError"
  using assms by (simp_all add: prime_encode_first_error signed_inf_def)

lemma prime_encode_no_rounds: "k \<le> 0 \<Longrightarrow> prime_encode rnd v k = Inr []"
  by (simp add: prime_encode_def)

lemma encode_step_errors:
  assumes "encode_step rnd i st = Inl e"
  shows "e = ValueError \<or> e = OverflowError"
proof -
  obtain a ps where st: "st = (a, ps)" by (cases st)
  have "py_int y = Inl e \<Longrightarrow> e = ValueError \<or> e = OverflowError" for y
    by (cases y) auto
  then show ?thesis
    using assms unfolding st encode_step_def
    by (auto simp: getitem_primes split: if_splits sum.splits)
qed

lemma encode_loop_errors:
  "encode_loop rnd is st = Inl e \<Longrightarrow> e = ValueError \<or> e = OverflowError"
proof (induction "is" arbitrary: st)
  case Nil
  then show ?case by simp
next
  case (Cons i "is")
  then show ?case
    by (auto split: sum.splits dest: encode_step_errors)
qed

lemma prime_encode_errors:
  "prime_encode rnd v k = Inl e \<Longrightarrow> e = ValueError \<or> e = OverflowError"
  by (auto simp: prime_encode_def split: sum.splits dest: encode_loop_errors)

text \<open>
  C3, as the claim states it, fails for a finite float: \<open>2.0 ** 1023\<close> times \<open>15\<close>
  overflows to an infinity, and \<^verbatim>\<open>int\<close> of an infinity raises \<^verbatim>\<open>OverflowError\<close>;
  no sequence is returned.
\<close>

theorem prime_encode_overflow_counterexample:
  "prime_encode binary64 (Fin (2 ^ 1023)) 1 = Inl OverflowError \<and> is_float (2 ^ 1023)"
proof
  show "prime_encode binary64 (Fin (2 ^ 1023)) 1 = Inl OverflowError"
    by (rule prime_encode_overflow) (simp_all add: pow2_def)
  show "is_float (2 ^ 1023)" by (rule is_float_pow2_1023)
qed

text \<open>
  C3, amended. For every finite float \<open>v\<close> with \<open>|v| * 15 < 2^1024 - 2^970\<close> (the product
  does not overflow) and every integer \<open>k \<ge> 0\<close>, \<open>prime_encode(v, k)\<close> returns a strictly
  ascending, duplicate-free sequence of length at most \<open>k\<close>, every element of which
  belongs to the table of the 15 primes.
\<close>

theorem prime_encode_result:
  assumes "\<bar>x\<bar> * 15 < pow2 1024 - pow2 970" and "0 \<le> k"
  shows "\<exists>xs. prime_encode binary64 (Fin x) k = Inr xs
      \<and> sorted_wrt (<) xs \<and> distinct xs \<and> int (length xs) \<le> k
      \<and> set xs \<subseteq> set FUNDAMENTAL_PRIMES"
proof -
  let ?xs = "encoding nearest (910872158600853 / 562949953421312) x k"
  have "prime_encode binary64 (Fin x) k = Inr ?xs" using assms(1) by (rule prime_encode_binary64)
  moreover have "int (length ?xs) \<le> k"
  proof -
    have "length ?xs \<le> nat k"
      using encoding_properties(3) [of nearest "910872158600853 / 562949953421312" x k] by simp
    then have "int (length ?xs) \<le> int (nat k)" by (simp only: of_nat_le_iff)
    then show ?thesis using assms(2) by simp
  qed
  ultimately show ?thesis using encoding_properties(1,2,4) by blast
qed

text \<open>The hypotheses of C3 hold for \<open>prime_encode(0.5, 3)\<close>.\<close>

theorem prime_encode_result_witness:
  "\<exists>xs. prime_encode binary64 (Fin (1 / 2)) 3 = Inr xs
      \<and> sorted_wrt (<) xs \<and> distinct xs \<and> int (length xs) \<le> 3
      \<and> set xs \<subseteq> set FUNDAMENTAL_PRIMES"
proof -
  have "pow2 4 \<le> pow2 1024 - pow2 970" by (rule threshold_gt) simp
  then have "\<bar>1 / 2 :: real\<bar> * 15 < pow2 1024 - pow2 970" by (simp add: pow2_def)
  then show ?thesis by (rule prime_encode_result) simp
qed

text \<open>
  C4, as the claim states it, fails. For the finite float \<open>-(2.0 ** 1023)\<close> the first
  product overflows and the call raises instead of returning. And the index is the
  floor of the rounded product, not of the real one: for \<open>0.3333333333333333\<close>, the float
  below \<open>1/3\<close>, the float product \<open>v * 15\<close> is \<open>5.0\<close> and the prime selected is
  \<open>table[5] = 13\<close>, while the floor of the real product is \<open>4\<close> and \<open>table[4] = 11\<close>.
\<close>

theorem prime_encode_selection_counterexample:
  "prime_encode binary64 (Fin (- (2 ^ 1023))) 2 = Inl OverflowError
   \<and> prime_encode binary64 (Fin (6004799503160661 / 18014398509481984)) 1 = Inr [13]
   \<and> encoding (\<lambda>y. y) (910872158600853 / 562949953421312)
         (6004799503160661 / 18014398509481984) 1 = [11]
   \<and> is_float (- (2 ^ 1023)) \<and> is_float (6004799503160661 / 18014398509481984)"
proof -
  have d: "is_float (- (2 ^ 1023))"
    using is_float_pow2_1023 is_float_neg [of "2 ^ 1023"] by simp
  have e: "is_float (6004799503160661 / 18014398509481984)"
    unfolding is_float_def
    by (rule binary64_eval [of "-2" _ "6004799503160661"]) (simp_all add: pow2_def)
  have a: "prime_encode binary64 (Fin (- (2 ^ 1023))) 2 = Inl OverflowError"
    by (rule prime_encode_overflow) (simp_all add: pow2_def)
  have "pow2 4 \<le> pow2 1024 - pow2 970" by (rule threshold_gt) simp
  then have "\<bar>6004799503160661 / 18014398509481984 :: real\<bar> * 15 < pow2 1024 - pow2 970"
    by (simp add: pow2_def [of 4])
  then have "prime_encode binary64 (Fin (6004799503160661 / 18014398509481984)) 1
    = Inr (encoding nearest (910872158600853 / 562949953421312)
        (6004799503160661 / 18014398509481984) 1)"
    by (rule prime_encode_binary64)
  moreover have "nearest (90071992547409915 / 18014398509481984) = 5"
    using nearest_eval [of 2 "90071992547409915 / 18014398509481984" "5 * 2 ^ 50"]
    by (simp add: pow2_def)
  ultimately have b: "prime_encode binary64 (Fin (6004799503160661 / 18014398509481984)) 1 = Inr [13]"
    by (simp add: encoding_def One_nat_def FUNDAMENTAL_PRIMES_def)
  have c: "encoding (\<lambda>y. y) (910872158600853 / 562949953421312)
         (6004799503160661 / 18014398509481984) 1 = [11]"
    by (simp add: encoding_def One_nat_def FUNDAMENTAL_PRIMES_def)
  show ?thesis using a b c d e by simp
qed

text \<open>
  C4, amended. For every finite float \<open>value\<close> with \<open>|value| * 15 < 2^1024 - 2^970\<close> and
  every integer \<open>num_primes\<close>, \<open>prime_encode\<close> makes \<open>min(num_primes, 15)\<close> selection steps
  (none when \<open>num_primes \<le> 0\<close>) from the state \<open>v = |value|\<close>; each step selects
  \<open>table[floor(v * 15) mod 15]\<close> and advances the state to \<open>(v * \<phi>) mod 1\<close>, where the two
  products are the float products (the real products rounded to binary64) and \<open>\<phi>\<close> is the
  float \<open>1.618033988749895\<close>; it returns the deduplicated ascending sort of the selected
  primes. In exact arithmetic the same holds with the real products, for every finite
  value.
\<close>

theorem prime_encode_selection:
  assumes "\<bar>x\<bar> * 15 < pow2 1024 - pow2 970"
  shows "prime_encode binary64 (Fin x) k
      = Inr (encoding nearest (910872158600853 / 562949953421312) x k)
    \<and> prime_encode exact (Fin x) k
      = Inr (encoding (\<lambda>y. y) (910872158600853 / 562949953421312) x k)"
  using prime_encode_binary64 [OF assms] prime_encode_exact by simp

text \<open>
  The hypothesis of C4 holds for \<open>prime_encode(0.5, 3)\<close>: the states are \<open>0.5\<close>,
  \<open>0.8090169943749475\<close> and \<open>0.30901699437494745\<close>, the indices \<open>7\<close>, \<open>12\<close> and \<open>4\<close>, and
  the result is \<open>[11, 19, 41]\<close>.
\<close>

theorem prime_encode_selection_witness: "prime_encode binary64 (Fin (1 / 2)) 3 = Inr [11, 19, 41]"
proof -
  have "pow2 4 \<le> pow2 1024 - pow2 970" by (rule threshold_gt) simp
  then have "\<bar>1 / 2 :: real\<bar> * 15 < pow2 1024 - pow2 970" by (simp add: pow2_def)
  from prime_encode_selection [OF this, of 3]
  have "prime_encode binary64 (Fin (1 / 2)) 3
    = Inr (encoding nearest (910872158600853 / 562949953421312) (1 / 2) 3)" by simp
  moreover have n1: "nearest (15 / 2) = 15 / 2"
    using nearest_at [of "2" "15 / 2"] by (simp add: pow2_def round_half_even_def Let_def)
  have n2: "nearest (910872158600853 / 1125899906842624) = 910872158600853 / 1125899906842624"
    using nearest_at [of "-1" "910872158600853 / 1125899906842624"] by (simp add: pow2_def round_half_even_def Let_def)
  have n3: "nearest (13663082379012795 / 1125899906842624) = 3415770594753199 / 281474976710656"
    using nearest_at [of "3" "13663082379012795 / 1125899906842624"] by (simp add: pow2_def round_half_even_def Let_def)
  have n4: "nearest (829688089314177501862572327609 / 633825300114114700748351602688) = 1473822112022165 / 1125899906842624"
    using nearest_at [of "0" "829688089314177501862572327609 / 633825300114114700748351602688"] by (simp add: pow2_def round_half_even_def Let_def)
  have n5: "nearest (5218833077693115 / 1125899906842624) = 5218833077693115 / 1125899906842624"
    using nearest_at [of "2" "5218833077693115 / 1125899906842624"] by (simp add: pow2_def round_half_even_def Let_def)
  ultimately show ?thesis
    by (simp add: encoding_def numeral_3_eq_3 FUNDAMENTAL_PRIMES_def frac_def n1 n2 n3 n4 n5)
qed

text \<open>
  C6, as the claim states it, fails: for a NaN \<open>prime_encode\<close> raises \<^verbatim>\<open>ValueError\<close>, for
  an infinity \<^verbatim>\<open>OverflowError\<close>, both from \<^verbatim>\<open>int\<close>, and with \<open>num_primes = 0\<close> it
  returns the empty list for them.
\<close>

theorem prime_encode_nonfinite_counterexample:
  "prime_encode binary64 NaN 1 = Inl ValueError
   \<and> prime_encode binary64 PInf 1 = Inl OverflowError
   \<and> prime_encode binary64 NInf 0 = Inr []"
  by (simp add: prime_encode_nonfinite prime_encode_no_rounds)

text \<open>
  C6, amended. \<open>prime_encode\<close> raises no error for a finite input \<open>x\<close> with
  \<open>|x| * 15 < 2^1024 - 2^970\<close>. When \<open>num_primes \<ge> 1\<close> it raises \<^verbatim>\<open>OverflowError\<close> for a
  finite input with \<open>|x| * 15 \<ge> 2^1024 - 2^970\<close> and for an infinity, and \<^verbatim>\<open>ValueError\<close>
  for a NaN. When \<open>num_primes \<le> 0\<close> it returns the empty list for every input. It never
  raises \<open>InvalidSignalError\<close>.
\<close>

theorem prime_encode_errors_by_input:
  "(\<bar>x\<bar> * 15 < pow2 1024 - pow2 970 \<longrightarrow> (\<exists>xs. prime_encode binary64 (Fin x) k = Inr xs))
   \<and> (1 \<le> k \<and> pow2 1024 - pow2 970 \<le> \<bar>x\<bar> * 15
        \<longrightarrow> prime_encode binary64 (Fin x) k = Inl OverflowError)
   \<and> (1 \<le> k \<longrightarrow> prime_encode binary64 NaN k = Inl ValueError
        \<and> prime_encode binary64 PInf k = Inl OverflowError
        \<and> prime_encode binary64 NInf k = Inl OverflowError)
   \<and> (k \<le> 0 \<longrightarrow> prime_encode binary64 v k = Inr [])
   \<and> prime_encode binary64 v k \<noteq> Inl InvalidSignalError"
  using prime_encode_binary64 [of x k] prime_encode_overflow [of k x]
    prime_encode_nonfinite [of k binary64] prime_encode_no_rounds [of k binary64 v]
    prime_encode_errors [of binary64 v k InvalidSignalError]
  by auto

text \<open>
  The hypotheses of C6 hold at \<open>0.5\<close>, \<open>2.0 ** 1023\<close>, NaN and the infinities with
  \<open>num_primes = 3\<close>, and at \<open>num_primes = 0\<close>.
\<close>

theorem prime_encode_errors_by_input_witness:
  "(\<exists>xs. prime_encode binary64 (Fin (1 / 2)) 3 = Inr xs)
   \<and> prime_encode binary64 (Fin (2 ^ 1023)) 3 = Inl OverflowError
   \<and> prime_encode binary64 NaN 3 = Inl ValueError
   \<and> prime_encode binary64 PInf 3 = Inl OverflowError
   \<and> prime_encode binary64 NInf 3 = Inl OverflowError
   \<and> prime_encode binary64 NaN 0 = Inr []"
proof -
  have "pow2 4 \<le> pow2 1024 - pow2 970" by (rule threshold_gt) simp
  then have a: "\<bar>1 / 2 :: real\<bar> * 15 < pow2 1024 - pow2 970" by (simp add: pow2_def)
  have b: "pow2 1024 - pow2 970 \<le> \<bar>2 ^ 1023 :: real\<bar> * 15" by (simp add: pow2_def)
  show ?thesis
    using prime_encode_errors_by_input [of "1 / 2" 3 NaN] a
      prime_encode_errors_by_input [of "2 ^ 1023" 3 NaN] b
      prime_encode_errors_by_input [of 0 0 NaN]
    by simp
qed

end
